theory Spec2Isabelle
  imports Complex_Main "HOL-Library.Sublist" "HOL-Library.Multiset"
begin

section \<open>JavaScript numbers\<close>

text \<open>
  A JavaScript number is an IEEE 754 binary64 value.  A finite one is carried by the
  rational it denotes; every arithmetic operation computes the exact rational result and
  rounds it back to binary64 with \<open>fl\<close> (round to nearest, ties to even, gradual
  underflow, overflow to an infinity).  The sign of zero is not tracked: \<open>-0\<close> and
  \<open>+0\<close> print alike through \<open>String\<close> and compare alike, and nothing in
  \<open>script.js\<close> divides by a value that may be zero.
\<close>

datatype jsnum = Fin rat | PInf | NInf | NaN

definition pow2 :: "int \<Rightarrow> rat" where
  "pow2 e = (if 0 \<le> e then 2 ^ nat e else 1 / 2 ^ nat (- e))"

definition pow10 :: "int \<Rightarrow> rat" where
  "pow10 e = (if 0 \<le> e then 10 ^ nat e else 1 / 10 ^ nat (- e))"

function numBits :: "int \<Rightarrow> int" where
  \<comment> \<open>how many binary digits a natural number has (one for \<open>0\<close>)\<close>
  "numBits n = (if n < 2 then 1 else 1 + numBits (n div 2))"
  by pat_completeness auto
termination
  by (relation "measure nat") auto

declare numBits.simps [simp del]

definition ilog2 :: "rat \<Rightarrow> int" where
  \<comment> \<open>for \<open>0 < a\<close>: the \<open>e\<close> with \<open>2^e \<le> a < 2^(e+1)\<close>\<close>
  "ilog2 a = (if 1 \<le> a then numBits \<lfloor>a\<rfloor> - 1 else - numBits (\<lceil>1 / a\<rceil> - 1))"

definition roundHalfEven :: "rat \<Rightarrow> int" where
  "roundHalfEven t =
     (if t - of_int \<lfloor>t\<rfloor> < 1 / 2 then \<lfloor>t\<rfloor>
      else if 1 / 2 < t - of_int \<lfloor>t\<rfloor> then \<lfloor>t\<rfloor> + 1
      else if even \<lfloor>t\<rfloor> then \<lfloor>t\<rfloor> else \<lfloor>t\<rfloor> + 1)"

definition finOrInf :: "rat \<Rightarrow> jsnum" where
  \<comment> \<open>a rounded magnitude past the largest binary64 value is an infinity\<close>
  "finOrInf r = (if 2 ^ 1024 \<le> r then PInf else Fin r)"

definition roundAt :: "rat \<Rightarrow> int \<Rightarrow> jsnum" where
  \<comment> \<open>53 significant bits at binary exponent \<open>e\<close>: a multiple of \<open>2^(e-52)\<close>\<close>
  "roundAt a e = finOrInf (of_int (roundHalfEven (a / pow2 (e - 52))) * pow2 (e - 52))"

definition flPos :: "rat \<Rightarrow> jsnum" where
  \<comment> \<open>exponents stop at -1022: below, the spacing stays \<open>2^(-1074)\<close>\<close>
  "flPos a = roundAt a (max (ilog2 a) (- 1022))"

fun js_neg :: "jsnum \<Rightarrow> jsnum" where
  "js_neg (Fin x) = Fin (- x)"
| "js_neg PInf = NInf"
| "js_neg NInf = PInf"
| "js_neg NaN = NaN"

definition fl :: "rat \<Rightarrow> jsnum" where
  \<comment> \<open>the binary64 value nearest to a rational, ties to the even significand\<close>
  "fl x = (if x = 0 then Fin 0 else if 0 < x then flPos x else js_neg (flPos (- x)))"

fun js_mul :: "jsnum \<Rightarrow> jsnum \<Rightarrow> jsnum" where
  \<comment> \<open>\<open>a * b\<close>\<close>
  "js_mul NaN _ = NaN"
| "js_mul _ NaN = NaN"
| "js_mul (Fin a) (Fin b) = fl (a * b)"
| "js_mul (Fin a) PInf = (if a = 0 then NaN else if 0 < a then PInf else NInf)"
| "js_mul (Fin a) NInf = (if a = 0 then NaN else if 0 < a then NInf else PInf)"
| "js_mul PInf (Fin b) = (if b = 0 then NaN else if 0 < b then PInf else NInf)"
| "js_mul NInf (Fin b) = (if b = 0 then NaN else if 0 < b then NInf else PInf)"
| "js_mul PInf PInf = PInf"
| "js_mul PInf NInf = NInf"
| "js_mul NInf PInf = NInf"
| "js_mul NInf NInf = PInf"

fun js_div :: "jsnum \<Rightarrow> jsnum \<Rightarrow> jsnum" where
  \<comment> \<open>\<open>a / b\<close>; a zero divisor is taken as \<open>+0\<close>\<close>
  "js_div NaN _ = NaN"
| "js_div _ NaN = NaN"
| "js_div (Fin a) (Fin b) =
     (if b = 0 then (if a = 0 then NaN else if 0 < a then PInf else NInf) else fl (a / b))"
| "js_div (Fin a) PInf = Fin 0"
| "js_div (Fin a) NInf = Fin 0"
| "js_div PInf (Fin b) = (if 0 \<le> b then PInf else NInf)"
| "js_div NInf (Fin b) = (if 0 \<le> b then NInf else PInf)"
| "js_div PInf PInf = NaN"
| "js_div PInf NInf = NaN"
| "js_div NInf PInf = NaN"
| "js_div NInf NInf = NaN"

fun js_sub :: "jsnum \<Rightarrow> jsnum \<Rightarrow> jsnum" where
  \<comment> \<open>\<open>a - b\<close>\<close>
  "js_sub NaN _ = NaN"
| "js_sub _ NaN = NaN"
| "js_sub (Fin a) (Fin b) = fl (a - b)"
| "js_sub (Fin a) PInf = NInf"
| "js_sub (Fin a) NInf = PInf"
| "js_sub PInf (Fin b) = PInf"
| "js_sub NInf (Fin b) = NInf"
| "js_sub PInf PInf = NaN"
| "js_sub NInf NInf = NaN"
| "js_sub PInf NInf = PInf"
| "js_sub NInf PInf = NInf"

definition js_pow10 :: "nat \<Rightarrow> jsnum" where
  \<comment> \<open>\<open>10 ** p\<close> for a natural \<open>p\<close>; exact up to \<open>p = 22\<close>\<close>
  "js_pow10 p = fl (10 ^ p)"

fun Math_round :: "jsnum \<Rightarrow> jsnum" where
  \<comment> \<open>\<open>Math.round\<close>: the nearest integer, a tie going to the larger one\<close>
  "Math_round (Fin x) = Fin (of_int \<lfloor>x + 1 / 2\<rfloor>)"
| "Math_round n = n"

fun js_lt :: "jsnum \<Rightarrow> jsnum \<Rightarrow> bool" where
  \<comment> \<open>\<open>a < b\<close> on numbers: false as soon as one side is NaN\<close>
  "js_lt NaN _ = False"
| "js_lt _ NaN = False"
| "js_lt (Fin a) (Fin b) = (a < b)"
| "js_lt (Fin a) PInf = True"
| "js_lt (Fin a) NInf = False"
| "js_lt PInf _ = False"
| "js_lt NInf NInf = False"
| "js_lt NInf _ = True"

subsection \<open>Number to string\<close>

text \<open>
  \<open>Number::toString\<close> of ECMAScript prints the shortest decimal \<open>s \<times> 10^(n-k)\<close>
  (\<open>k\<close> digits) that rounds back to the number, the closest one if several do.
\<close>

function numDigits :: "int \<Rightarrow> int" where
  \<comment> \<open>how many decimal digits a natural number has (one for \<open>0\<close>)\<close>
  "numDigits n = (if n < 10 then 1 else 1 + numDigits (n div 10))"
  by pat_completeness auto
termination
  by (relation "measure nat") auto

declare numDigits.simps [simp del]

definition decExp :: "rat \<Rightarrow> int" where
  \<comment> \<open>for \<open>0 < x\<close>: the \<open>n\<close> with \<open>10^(n-1) \<le> x < 10^n\<close>\<close>
  "decExp x = (if 1 \<le> x then numDigits \<lfloor>x\<rfloor> else 1 - numDigits (\<lceil>1 / x\<rceil> - 1))"

definition candidates :: "rat \<Rightarrow> nat \<Rightarrow> int \<Rightarrow> (int \<times> int) list" where
  \<comment> \<open>the \<open>k\<close>-digit integers \<open>s\<close> next to \<open>x / 10^(n-k)\<close> whose decimal reads back as \<open>x\<close>\<close>
  "candidates x k n =
     map (\<lambda>s. (s, n))
       (filter (\<lambda>s. 10 ^ (k - 1) \<le> s \<and> s < 10 ^ k \<and> fl (of_int s * pow10 (n - int k)) = Fin x)
          (remdups [\<lfloor>x / pow10 (n - int k)\<rfloor>, \<lceil>x / pow10 (n - int k)\<rceil>]))"

definition gap :: "rat \<Rightarrow> nat \<Rightarrow> int \<times> int \<Rightarrow> rat" where
  "gap x k c = \<bar>of_int (fst c) * pow10 (snd c - int k) - x\<bar>"

fun closest :: "rat \<Rightarrow> nat \<Rightarrow> (int \<times> int) list \<Rightarrow> (int \<times> int) option" where
  \<comment> \<open>the candidate nearest to \<open>x\<close>, the even one of two equally near\<close>
  "closest x k [] = None"
| "closest x k (c # cs) =
     (case closest x k cs of
        None \<Rightarrow> Some c
      | Some c' \<Rightarrow>
          (if gap x k c < gap x k c' \<or> (gap x k c = gap x k c' \<and> even (fst c))
           then Some c else Some c'))"

definition digitsAt :: "rat \<Rightarrow> nat \<Rightarrow> (int \<times> int) option" where
  "digitsAt x k = closest x k (candidates x k (decExp x) @ candidates x k (decExp x + 1))"

fun findDigits :: "rat \<Rightarrow> nat \<Rightarrow> nat \<Rightarrow> int \<times> int \<times> nat" where
  \<comment> \<open>the first \<open>k\<close>, counting up, at which some decimal reads back as \<open>x\<close>\<close>
  "findDigits x k 0 = (roundHalfEven (x / pow10 (decExp x - int k)), decExp x, k)"
| "findDigits x k (Suc fuel) =
     (case digitsAt x k of
        Some (s, n) \<Rightarrow> (s, n, k)
      | None \<Rightarrow> findDigits x (Suc k) fuel)"

definition shortestDigits :: "rat \<Rightarrow> int \<times> int \<times> nat" where
  \<comment> \<open>\<open>(s, n, k)\<close>; seventeen digits always identify a binary64 value\<close>
  "shortestDigits x = findDigits x 1 16"

definition digitChar :: "int \<Rightarrow> char" where
  "digitChar d = ''0123456789'' ! nat (d mod 10)"

function decimal :: "int \<Rightarrow> string" where
  \<comment> \<open>the decimal digits of a natural number\<close>
  "decimal n = (if n < 10 then [digitChar n] else decimal (n div 10) @ [digitChar (n mod 10)])"
  by pat_completeness auto
termination
  by (relation "measure nat") auto

declare decimal.simps [simp del]

fun layout :: "int \<times> int \<times> nat \<Rightarrow> string" where
  \<comment> \<open>plain digits while \<open>-6 < n \<le> 21\<close>, exponent notation outside\<close>
  "layout (s, n, k) =
     (if - 6 < n \<and> n \<le> 21 then
        (if int k \<le> n then decimal s @ replicate (nat (n - int k)) (CHR ''0'')
         else if 0 < n then take (nat n) (decimal s) @ ''.'' @ drop (nat n) (decimal s)
         else ''0.'' @ replicate (nat (- n)) (CHR ''0'') @ decimal s)
      else
        (if k = 1 then decimal s else take 1 (decimal s) @ ''.'' @ drop 1 (decimal s))
        @ ''e'' @ (if 0 < n - 1 then ''+'' else ''-'') @ decimal \<bar>n - 1\<bar>)"

fun numToString :: "jsnum \<Rightarrow> string" where
  "numToString NaN = ''NaN''"
| "numToString PInf = ''Infinity''"
| "numToString NInf = ''-Infinity''"
| "numToString (Fin x) =
     (if x = 0 then ''0''
      else (if x < 0 then ''-'' else []) @ layout (shortestDigits \<bar>x\<bar>))"

section \<open>JavaScript values, strings and the host\<close>

text \<open>
  A coin record is a parsed JSON object whose properties hold primitives; a property that
  is absent reads as \<open>undefined\<close>.  Strings are character lists over the code units
  below 256.
\<close>

datatype jsval = JUndefined | JNull | JBool bool | JNum jsnum | JStr string

type_synonym coin = "string \<Rightarrow> jsval"

datatype error = TypeError | RangeError | NetworkError

text \<open>
  What the engine and its locale data supply and \<open>script.js\<close> only calls: the numeric
  value of a string, the collation order behind \<open>localeCompare\<close>, and the symbols of
  the en-US currency pattern.
\<close>

record host =
  StringToNumber :: "string \<Rightarrow> jsnum"
  localeCompare :: "string \<Rightarrow> string \<Rightarrow> int"
  currencySymbol :: "string \<Rightarrow> string"
  infinitySymbol :: string

fun ToNumber :: "host \<Rightarrow> jsval \<Rightarrow> jsnum" where
  "ToNumber h JUndefined = NaN"
| "ToNumber h JNull = Fin 0"
| "ToNumber h (JBool b) = Fin (if b then 1 else 0)"
| "ToNumber h (JNum n) = n"
| "ToNumber h (JStr s) = StringToNumber h s"

fun ToString :: "jsval \<Rightarrow> string" where
  "ToString JUndefined = ''undefined''"
| "ToString JNull = ''null''"
| "ToString (JBool b) = (if b then ''true'' else ''false'')"
| "ToString (JNum n) = numToString n"
| "ToString (JStr s) = s"

definition lowerChar :: "char \<Rightarrow> char" where
  \<comment> \<open>A-Z and the capital letters of Latin-1 (0xC0-0xDE without the multiplication sign)\<close>
  "lowerChar c =
     (if (65 \<le> (of_char c :: nat) \<and> (of_char c :: nat) \<le> 90)
         \<or> (192 \<le> (of_char c :: nat) \<and> (of_char c :: nat) \<le> 222 \<and> (of_char c :: nat) \<noteq> 215)
      then char_of ((of_char c :: nat) + 32) else c)"

definition upperChar :: "char \<Rightarrow> char" where
  \<comment> \<open>ASCII only: all a currency code needs\<close>
  "upperChar c =
     (if 97 \<le> (of_char c :: nat) \<and> (of_char c :: nat) \<le> 122
      then char_of ((of_char c :: nat) - 32) else c)"

definition toLowerCase :: "string \<Rightarrow> string" where
  "toLowerCase s = map lowerChar s"

fun js_includes :: "string \<Rightarrow> string \<Rightarrow> bool" where
  \<comment> \<open>\<open>s.includes(t)\<close>: \<open>t\<close> occurs in \<open>s\<close> as a run of consecutive characters\<close>
  "js_includes [] t = (t = [])"
| "js_includes (c # s) t = (prefix t (c # s) \<or> js_includes s t)"

section \<open>Formatter\<close>

subsection \<open>\<open>toLocaleString("en-US", {style: "currency", ...})\<close>\<close>

text \<open>
  The en-US currency pattern as ECMA-402 lays it out: a minus sign for a negative number,
  the currency symbol, the integer digits in groups of three, and exactly as many fraction
  digits as minimum and maximum (equal here) ask for, the exact value of the number being
  rounded half away from zero.  (An engine prints a minus sign for \<open>-0\<close> too, which
  this model cannot tell from \<open>+0\<close>.)  A string or a boolean has a \<open>toLocaleString\<close>
  of its own, which ignores the options; \<open>null\<close> and \<open>undefined\<close> have none.
\<close>

definition isLetter :: "char \<Rightarrow> bool" where
  "isLetter c = ((65 \<le> (of_char c :: nat) \<and> (of_char c :: nat) \<le> 90)
                 \<or> (97 \<le> (of_char c :: nat) \<and> (of_char c :: nat) \<le> 122))"

definition wellFormedCurrency :: "string \<Rightarrow> bool" where
  \<comment> \<open>three ASCII letters; anything else makes the number format throw a RangeError\<close>
  "wellFormedCurrency c = (length c = 3 \<and> list_all isLetter c)"

fun commas :: "string \<Rightarrow> string" where
  \<comment> \<open>on the digits in reverse: a separator after every third one that has a successor\<close>
  "commas (a # b # c # d # r) = a # b # c # CHR '','' # commas (d # r)"
| "commas r = r"

definition group3 :: "string \<Rightarrow> string" where
  "group3 ds = rev (commas (rev ds))"

definition padFraction :: "nat \<Rightarrow> int \<Rightarrow> string" where
  \<comment> \<open>\<open>m\<close> on exactly \<open>d\<close> digits, zeros in front\<close>
  "padFraction d m = replicate (d - length (decimal m)) (CHR ''0'') @ decimal m"

definition scaled :: "rat \<Rightarrow> nat \<Rightarrow> int" where
  \<comment> \<open>\<open>|x| \<times> 10^d\<close> to the nearest integer, a tie going away from zero\<close>
  "scaled x d = \<lfloor>\<bar>x\<bar> * 10 ^ d + 1 / 2\<rfloor>"

definition fixedDigits :: "rat \<Rightarrow> nat \<Rightarrow> string" where
  \<comment> \<open>grouped integer part, then a point and \<open>d\<close> fraction digits when \<open>0 < d\<close>\<close>
  "fixedDigits x d =
     group3 (decimal (scaled x d div 10 ^ d))
     @ (if d = 0 then [] else ''.'' @ padFraction d (scaled x d mod 10 ^ d))"

fun currencyString :: "host \<Rightarrow> jsnum \<Rightarrow> string \<Rightarrow> nat \<Rightarrow> string" where
  "currencyString h (Fin x) cur d =
     (if x < 0 then ''-'' else []) @ currencySymbol h (map upperChar cur) @ fixedDigits x d"
| "currencyString h PInf cur d = currencySymbol h (map upperChar cur) @ infinitySymbol h"
| "currencyString h NInf cur d = ''-'' @ currencySymbol h (map upperChar cur) @ infinitySymbol h"
| "currencyString h NaN cur d = currencySymbol h (map upperChar cur) @ ''NaN''"

fun toLocaleString :: "host \<Rightarrow> jsval \<Rightarrow> string \<Rightarrow> nat \<Rightarrow> error + string" where
  \<comment> \<open>\<open>value.toLocaleString("en-US", {style: "currency", currency, min = max = d})\<close>\<close>
  "toLocaleString h JUndefined cur d = Inl TypeError"
| "toLocaleString h JNull cur d = Inl TypeError"
| "toLocaleString h (JBool b) cur d = Inr (ToString (JBool b))"
| "toLocaleString h (JStr s) cur d = Inr s"
| "toLocaleString h (JNum n) cur d =
     (if wellFormedCurrency cur then Inr (currencyString h n cur d) else Inl RangeError)"

subsection \<open>The three formatters of \<open>script.js\<close>\<close>

definition formatCurrency :: "host \<Rightarrow> jsval \<Rightarrow> string \<Rightarrow> bool \<Rightarrow> error + string" where
  "formatCurrency h value currency showDecimal =
     toLocaleString h value currency
       (if \<not> showDecimal then 0 else if js_lt (ToNumber h value) (Fin 1) then 5 else 2)"

definition formatPercentage :: "host \<Rightarrow> jsval \<Rightarrow> nat \<Rightarrow> string" where
  "formatPercentage h value percision =
     numToString
       (js_div (Math_round (js_mul (ToNumber h value) (js_pow10 percision))) (js_pow10 percision))
     @ ''%''"

definition getColorClass :: "host \<Rightarrow> jsval \<Rightarrow> string" where
  "getColorClass h value =
     (if js_lt (Fin 0) (ToNumber h value) then ''positive''
      else if js_lt (ToNumber h value) (Fin 0) then ''negative''
      else [])"

section \<open>Table renderer\<close>

subsection \<open>Comparator and search filter\<close>

definition sortByColumn :: "host \<Rightarrow> string \<Rightarrow> string \<Rightarrow> coin \<Rightarrow> coin \<Rightarrow> error + jsnum" where
  \<comment> \<open>\<open>x.localeCompare(y)\<close> turns \<open>y\<close> into a string, and throws when \<open>x\<close> is not one\<close>
  "sortByColumn h sortBy sort' a b =
     (case a sortBy of
        JStr s \<Rightarrow>
          (if sort' = ''asc'' then Inr (Fin (of_int (localeCompare h s (ToString (b sortBy)))))
           else (case b sortBy of
                   JStr t \<Rightarrow> Inr (Fin (of_int (localeCompare h t s)))
                 | _ \<Rightarrow> Inl TypeError))
      | _ \<Rightarrow>
          Inr (if sort' = ''asc'' then js_sub (ToNumber h (a sortBy)) (ToNumber h (b sortBy))
               else js_sub (ToNumber h (b sortBy)) (ToNumber h (a sortBy))))"

fun lowered :: "jsval \<Rightarrow> error + string" where
  \<comment> \<open>\<open>v.toLowerCase()\<close>: only a string has the method\<close>
  "lowered (JStr s) = Inr (toLowerCase s)"
| "lowered v = Inl TypeError"

definition filterBySearch :: "string \<Rightarrow> coin \<Rightarrow> error + bool" where
  \<comment> \<open>\<open>||\<close> does not look at the symbol once the name matches\<close>
  "filterBySearch search coin =
     (case lowered (coin ''name'') of
        Inl e \<Rightarrow> Inl e
      | Inr n \<Rightarrow>
          if js_includes n (toLowerCase search) then Inr True
          else (case lowered (coin ''symbol'') of
                  Inl e \<Rightarrow> Inl e
                | Inr y \<Rightarrow> Inr (js_includes y (toLowerCase search))))"

subsection \<open>\<open>Array.prototype.sort\<close> and \<open>Array.prototype.filter\<close>\<close>

text \<open>
  \<open>sort\<close> is stable and, for a consistent comparator, fully determined; the model is the
  stable insertion sort.  A comparator result that is not above zero (NaN included) leaves
  the later element behind the earlier one.  When the comparator throws, the array is
  left as it was.
\<close>

fun insertSorted :: "('a \<Rightarrow> 'a \<Rightarrow> error + jsnum) \<Rightarrow> 'a \<Rightarrow> 'a list \<Rightarrow> error + 'a list" where
  "insertSorted cmp x [] = Inr [x]"
| "insertSorted cmp x (y # ys) =
     (case cmp y x of
        Inl e \<Rightarrow> Inl e
      | Inr v \<Rightarrow>
          if js_lt (Fin 0) v then Inr (x # y # ys)
          else (case insertSorted cmp x ys of
                  Inl e \<Rightarrow> Inl e
                | Inr zs \<Rightarrow> Inr (y # zs)))"

fun sortInto :: "('a \<Rightarrow> 'a \<Rightarrow> error + jsnum) \<Rightarrow> 'a list \<Rightarrow> 'a list \<Rightarrow> error + 'a list" where
  "sortInto cmp acc [] = Inr acc"
| "sortInto cmp acc (x # xs) =
     (case insertSorted cmp x acc of
        Inl e \<Rightarrow> Inl e
      | Inr acc' \<Rightarrow> sortInto cmp acc' xs)"

definition js_sort :: "('a \<Rightarrow> 'a \<Rightarrow> error + jsnum) \<Rightarrow> 'a list \<Rightarrow> error + 'a list" where
  "js_sort cmp xs = sortInto cmp [] xs"

fun js_filter :: "('a \<Rightarrow> error + bool) \<Rightarrow> 'a list \<Rightarrow> error + 'a list" where
  "js_filter p [] = Inr []"
| "js_filter p (x # xs) =
     (case p x of
        Inl e \<Rightarrow> Inl e
      | Inr b \<Rightarrow>
          (case js_filter p xs of
             Inl e \<Rightarrow> Inl e
           | Inr ys \<Rightarrow> Inr (if b then x # ys else ys)))"

definition computeDerived ::
  "host \<Rightarrow> coin list \<Rightarrow> string \<Rightarrow> string \<Rightarrow> string \<Rightarrow> error + coin list" where
  \<comment> \<open>\<open>sortedData\<close> then \<open>filteredData\<close> of \<open>renderTable\<close>; the specification's name\<close>
  "computeDerived h data sortBy sort' search =
     (case js_sort (sortByColumn h sortBy sort') data of
        Inl e \<Rightarrow> Inl e
      | Inr sortedData \<Rightarrow> js_filter (filterBySearch search) sortedData)"

subsection \<open>The page\<close>

text \<open>
  The state \<open>script.js\<close> works on: the data attributes of the table, its header and body,
  the overlay, the label of the currency dropdown, the arrays \<open>script.js\<close> holds references
  to, and \<open>lastFetchedData\<close>, one such reference.  \<open>effects\<close> logs what happens to the
  overlay and the network, in order.  A row keeps the values interpolated into its markup.
  The markup of the page is not part of \<open>script.js\<close>: the header cells and the first
  values of the data attributes are whatever the page under consideration holds.
\<close>

datatype icon = NoIcon | CaretDown | CaretUp

record headerCell =
  dataSortColumn :: "string option"
  dataDefaultSort :: string
  active :: bool
  sortIcon :: icon

record row =
  rankCell :: string
  imageSrc :: string
  nameText :: string
  symbolText :: string
  priceCell :: string
  change1h :: "string \<times> string"
  change24h :: "string \<times> string"
  change7d :: "string \<times> string"
  volumeCell :: string
  marketCapCell :: string

datatype effect = OverlayShow | OverlayHide | Request string

datatype completion = Normal | Throw error

record page =
  dataCurrency :: string
  dataSortBy :: string
  dataSort :: string
  dataSearch :: string
  thead :: "headerCell list"
  tbody :: "row list"
  overlayShown :: bool
  dropdownText :: string
  arrays :: "nat \<Rightarrow> coin list"
  nextArray :: nat
  lastFetchedData :: nat
  effects :: "effect list"

definition clearRows :: "page \<Rightarrow> page" where
  "clearRows s = s\<lparr>tbody := []\<rparr>"

definition updateHeaderCell :: "string \<Rightarrow> string \<Rightarrow> headerCell \<Rightarrow> headerCell" where
  \<comment> \<open>the selector \<open>[data-sort-icon\<close> lacks its bracket; browsers close it at the end\<close>
  "updateHeaderCell currentSortBy currentSort cell =
     (if dataSortColumn cell = Some currentSortBy
      then cell\<lparr>active := True, sortIcon := (if currentSort = ''desc'' then CaretDown else CaretUp)\<rparr>
      else cell\<lparr>active := False, sortIcon := NoIcon\<rparr>)"

definition updateHeader :: "page \<Rightarrow> page" where
  "updateHeader s = s\<lparr>thead := map (updateHeaderCell (dataSortBy s) (dataSort s)) (thead s)\<rparr>"

definition percentCell :: "host \<Rightarrow> jsval \<Rightarrow> string \<times> string" where
  \<comment> \<open>the class and the text of a percentage cell\<close>
  "percentCell h v = (getColorClass h v, formatPercentage h v 2)"

definition renderRow :: "host \<Rightarrow> string \<Rightarrow> coin \<Rightarrow> error + row" where
  \<comment> \<open>the template literal, its interpolations evaluated from left to right\<close>
  "renderRow h currency coin =
     (case formatCurrency h (coin ''current_price'') currency True of
        Inl e \<Rightarrow> Inl e
      | Inr price \<Rightarrow>
     (case formatCurrency h (coin ''total_volume'') currency False of
        Inl e \<Rightarrow> Inl e
      | Inr volume \<Rightarrow>
     (case formatCurrency h (coin ''market_cap'') currency False of
        Inl e \<Rightarrow> Inl e
      | Inr cap \<Rightarrow>
          Inr \<lparr> rankCell = ToString (coin ''market_cap_rank''),
                imageSrc = ToString (coin ''image''),
                nameText = ToString (coin ''name''),
                symbolText = ToString (coin ''symbol''),
                priceCell = price,
                change1h = percentCell h (coin ''price_change_percentage_1h_in_currency''),
                change24h = percentCell h (coin ''price_change_percentage_24h_in_currency''),
                change7d = percentCell h (coin ''price_change_percentage_7d_in_currency''),
                volumeCell = volume,
                marketCapCell = cap \<rparr>)))"

fun renderRows :: "host \<Rightarrow> coin list \<Rightarrow> page \<Rightarrow> completion \<times> page" where
  \<comment> \<open>\<open>forEach\<close>: a row that throws ends the loop, the rows appended before it stay\<close>
  "renderRows h [] s = (Normal, s)"
| "renderRows h (coin # data) s =
     (case renderRow h (dataCurrency s) coin of
        Inl e \<Rightarrow> (Throw e, s)
      | Inr r \<Rightarrow> renderRows h data (s\<lparr>tbody := tbody s @ [r]\<rparr>))"

definition renderTable :: "host \<Rightarrow> nat \<Rightarrow> page \<Rightarrow> completion \<times> page" where
  \<comment> \<open>\<open>data\<close> is a reference: \<open>data.sort\<close> writes the sorted order back into that array\<close>
  "renderTable h data s =
     (case js_sort (sortByColumn h (dataSortBy s) (dataSort s)) (arrays s data) of
        Inl e \<Rightarrow> (Throw e, s)
      | Inr sortedData \<Rightarrow>
          (case js_filter (filterBySearch (dataSearch s)) sortedData of
             Inl e \<Rightarrow> (Throw e, s\<lparr>arrays := (arrays s)(data := sortedData)\<rparr>)
           | Inr filteredData \<Rightarrow>
               (case renderRows h filteredData
                       (clearRows (s\<lparr>arrays := (arrays s)(data := sortedData)\<rparr>)) of
                  (Throw e, s') \<Rightarrow> (Throw e, s')
                | (Normal, s') \<Rightarrow> (Normal, updateHeader s'))))"

section \<open>Market data client and interaction controller\<close>

definition GECKO_BASE_URL :: string where
  "GECKO_BASE_URL = ''https://api.coingecko.com/api/v3''"

definition marketUrl :: "string \<Rightarrow> string" where
  \<comment> \<open>the address \<open>getCoinsMarket\<close> fetches\<close>
  "marketUrl currency =
     GECKO_BASE_URL @ ''/coins/markets?vs_currency='' @ currency
       @ ''&price_change_percentage=1h,24h,7d''"

text \<open>
  \<open>fetchAndRenderTable\<close> runs up to its \<open>await\<close>, and goes on when the request has
  settled: with the parsed array, or with the rejection of \<open>fetch\<close> or of
  \<open>response.json()\<close>, which the \<open>await\<close> throws.  The settled request is an argument.
\<close>

definition fetchStart :: "page \<Rightarrow> page" where
  "fetchStart s =
     s\<lparr>overlayShown := True,
       effects := effects s @ [OverlayShow, Request (marketUrl (dataCurrency s))]\<rparr>"

definition fetchResume :: "host \<Rightarrow> error + coin list \<Rightarrow> page \<Rightarrow> completion \<times> page" where
  "fetchResume h settled s =
     (case settled of
        Inl e \<Rightarrow> (Throw e, s)
      | Inr data \<Rightarrow>
          renderTable h (nextArray s)
            (s\<lparr>overlayShown := False,
               effects := effects s @ [OverlayHide],
               arrays := (arrays s)(nextArray s := data),
               lastFetchedData := nextArray s,
               nextArray := Suc (nextArray s)\<rparr>))"

definition fetchAndRenderTable :: "host \<Rightarrow> error + coin list \<Rightarrow> page \<Rightarrow> completion \<times> page" where
  "fetchAndRenderTable h settled s = fetchResume h settled (fetchStart s)"

definition updateSearch :: "host \<Rightarrow> string \<Rightarrow> page \<Rightarrow> completion \<times> page" where
  "updateSearch h v s = renderTable h (lastFetchedData s) (s\<lparr>dataSearch := v\<rparr>)"

definition updateCurrency ::
  "host \<Rightarrow> string \<Rightarrow> error + coin list \<Rightarrow> page \<Rightarrow> completion \<times> page" where
  "updateCurrency h currency settled s =
     fetchAndRenderTable h settled (s\<lparr>dataCurrency := currency, dropdownText := currency\<rparr>)"

definition updateSort :: "host \<Rightarrow> string \<Rightarrow> string \<Rightarrow> page \<Rightarrow> completion \<times> page" where
  "updateSort h newSortBy defaultSort s =
     renderTable h (lastFetchedData s)
       (s\<lparr>dataSortBy := newSortBy,
          dataSort := (if dataSortBy s = newSortBy
                       then (if dataSort s = ''desc'' then ''asc'' else ''desc'')
                       else defaultSort)\<rparr>)"

text \<open>
  The listeners at the end of \<open>script.js\<close>: typing in the search box and the reset
  button, a click on a header cell that carries \<open>data-sort-column\<close>, and a click on a
  currency of the dropdown.
\<close>

definition onSearchInput :: "host \<Rightarrow> string \<Rightarrow> page \<Rightarrow> completion \<times> page" where
  "onSearchInput h v s = updateSearch h v s"

definition onResetSearch :: "host \<Rightarrow> page \<Rightarrow> completion \<times> page" where
  "onResetSearch h s = updateSearch h [] s"

definition onSortColumnClick :: "host \<Rightarrow> headerCell \<Rightarrow> page \<Rightarrow> completion \<times> page" where
  "onSortColumnClick h cell s =
     (case dataSortColumn cell of
        None \<Rightarrow> (Normal, s)
      | Some newSortBy \<Rightarrow> updateSort h newSortBy (dataDefaultSort cell) s)"

definition onSetCurrencyClick ::
  "host \<Rightarrow> string \<Rightarrow> error + coin list \<Rightarrow> page \<Rightarrow> completion \<times> page" where
  "onSetCurrencyClick h currency settled s = updateCurrency h currency settled s"

section \<open>The specification's wording, and sample data\<close>

text \<open>
  The percentage formatter as the specification words it: rounding half away from zero
  where \<open>script.js\<close> calls \<open>Math.round\<close>, everything else alike.
\<close>

definition roundHalfAway :: "rat \<Rightarrow> int" where
  "roundHalfAway x = (if 0 \<le> x then \<lfloor>x + 1 / 2\<rfloor> else \<lceil>x - 1 / 2\<rceil>)"

fun negativeTie :: "jsnum \<Rightarrow> bool" where
  \<comment> \<open>a negative number half-way between two integers\<close>
  "negativeTie (Fin x) = (x < 0 \<and> x - of_int \<lfloor>x\<rfloor> = 1 / 2)"
| "negativeTie n = False"

fun spec_round :: "jsnum \<Rightarrow> jsnum" where
  "spec_round (Fin x) = Fin (of_int (roundHalfAway x))"
| "spec_round n = n"

definition spec_formatPercentage :: "host \<Rightarrow> jsval \<Rightarrow> nat \<Rightarrow> string" where
  "spec_formatPercentage h value precision =
     numToString
       (js_div (spec_round (js_mul (ToNumber h value) (js_pow10 precision))) (js_pow10 precision))
     @ ''%''"

text \<open>
  The fraction digits of a formatted amount: the run of digits that ends the string, when
  a decimal point stands in front of it.
\<close>

definition isDigit :: "char \<Rightarrow> bool" where
  "isDigit c = (c \<in> set ''0123456789'')"

definition fractionDigits :: "string \<Rightarrow> nat" where
  "fractionDigits s =
     (case dropWhile isDigit (rev s) of
        [] \<Rightarrow> 0
      | c # _ \<Rightarrow> if c = CHR ''.'' then length (takeWhile isDigit (rev s)) else 0)"

text \<open>
  The loading indicator as the specification wants it around one request: shown once
  right before the request, hidden once right after.
\<close>

fun shownAndHiddenOnce :: "effect list \<Rightarrow> bool" where
  "shownAndHiddenOnce [OverlayShow, Request url, OverlayHide] = True"
| "shownAndHiddenOnce es = False"

definition newEffects :: "page \<Rightarrow> page \<Rightarrow> effect list" where
  \<comment> \<open>what an operation taking \<open>s\<close> to \<open>s'\<close> added to the log\<close>
  "newEffects s s' = drop (length (effects s)) (effects s')"

definition sortedInPlace :: "('a \<Rightarrow> 'a \<Rightarrow> error + jsnum) \<Rightarrow> 'a list \<Rightarrow> 'a list" where
  \<comment> \<open>what an array holds after \<open>sort\<close>, were it called on the array alone\<close>
  "sortedInPlace cmp xs = (case js_sort cmp xs of Inl e \<Rightarrow> xs | Inr ys \<Rightarrow> ys)"

definition isDouble :: "rat \<Rightarrow> bool" where
  \<comment> \<open>the rationals that are binary64 values: rounding leaves them alone\<close>
  "isDouble x = (fl x = Fin x)"

text \<open>
  What ECMAScript asks of a comparator for \<open>sort\<close> to be determined: on the elements
  at hand it never throws, and "does not come after" is a total preorder.
\<close>

definition comesAfter :: "('a \<Rightarrow> 'a \<Rightarrow> error + jsnum) \<Rightarrow> 'a \<Rightarrow> 'a \<Rightarrow> bool" where
  \<comment> \<open>the comparator puts \<open>a\<close> behind \<open>b\<close>: its result is above zero\<close>
  "comesAfter cmp a b = (case cmp a b of Inl e \<Rightarrow> False | Inr v \<Rightarrow> js_lt (Fin 0) v)"

definition neverThrows :: "('a \<Rightarrow> 'a \<Rightarrow> error + jsnum) \<Rightarrow> 'a set \<Rightarrow> bool" where
  "neverThrows cmp A = (\<forall>a \<in> A. \<forall>b \<in> A. \<exists>v. cmp a b = Inr v)"

definition consistentOn :: "('a \<Rightarrow> 'a \<Rightarrow> error + jsnum) \<Rightarrow> 'a set \<Rightarrow> bool" where
  "consistentOn cmp A =
     ((\<forall>a \<in> A. \<forall>b \<in> A. comesAfter cmp a b \<longrightarrow> \<not> comesAfter cmp b a)
      \<and> (\<forall>a \<in> A. \<forall>b \<in> A. \<forall>c \<in> A.
            \<not> comesAfter cmp a b \<and> \<not> comesAfter cmp b c \<longrightarrow> \<not> comesAfter cmp a c))"

text \<open>
  Fields as the data model types them.  A numeric field holds a finite number, or the
  \<open>null\<close> and booleans that subtraction turns into one; \<open>numVal\<close> is that number.
\<close>

fun isNumeric :: "jsval \<Rightarrow> bool" where
  "isNumeric (JNum (Fin x)) = isDouble x"
| "isNumeric JNull = True"
| "isNumeric (JBool b) = True"
| "isNumeric v = False"

fun numVal :: "jsval \<Rightarrow> rat" where
  "numVal (JNum (Fin x)) = x"
| "numVal (JBool b) = (if b then 1 else 0)"
| "numVal v = 0"

fun isString :: "jsval \<Rightarrow> bool" where
  "isString (JStr s) = True"
| "isString v = False"

definition numericField :: "string \<Rightarrow> coin list \<Rightarrow> bool" where
  "numericField f D = list_all (\<lambda>c. isNumeric (c f)) D"

definition stringField :: "string \<Rightarrow> coin list \<Rightarrow> bool" where
  "stringField f D = list_all (\<lambda>c. isString (c f)) D"

definition tie :: "('a \<Rightarrow> 'a \<Rightarrow> error + jsnum) \<Rightarrow> 'a \<Rightarrow> 'a \<Rightarrow> bool" where
  \<comment> \<open>neither comes after the other: the comparator says zero (or NaN) both ways\<close>
  "tie cmp a b = (\<not> comesAfter cmp a b \<and> \<not> comesAfter cmp b a)"

fun noTies :: "('a \<Rightarrow> 'a \<Rightarrow> error + jsnum) \<Rightarrow> 'a list \<Rightarrow> bool" where
  \<comment> \<open>no two records of the dataset tie\<close>
  "noTies cmp [] = True"
| "noTies cmp (x # xs) = (list_all (\<lambda>y. \<not> tie cmp x y) xs \<and> noTies cmp xs)"

text \<open>
  The search of the specification: the name or the symbol contains the search text, case
  put aside.  Two characters are the same letter when they are equal or one is the capital
  of the other: the pairs of the alphabet, and those of the accented letters of Latin-1
  (codes 192 to 222 without the multiplication sign, each 32 below its small letter).  A
  text occurs in a string when, somewhere in the string, it stands letter for letter.
\<close>

definition capitalCode :: "nat \<Rightarrow> bool" where
  \<comment> \<open>the codes of the capital letters in \<open>letterPairs\<close>\<close>
  "capitalCode n = ((65 \<le> n \<and> n \<le> 90) \<or> (192 \<le> n \<and> n \<le> 222 \<and> n \<noteq> 215))"

definition letterPairs :: "(char \<times> char) list" where
  "letterPairs =
     zip ''ABCDEFGHIJKLMNOPQRSTUVWXYZ'' ''abcdefghijklmnopqrstuvwxyz''
     @ map (\<lambda>n. (char_of n, char_of (n + 32))) ([192 ..< 215] @ [216 ..< 223 :: nat])"

definition sameLetter :: "char \<Rightarrow> char \<Rightarrow> bool" where
  "sameLetter a b = (a = b \<or> (a, b) \<in> set letterPairs \<or> (b, a) \<in> set letterPairs)"

fun startsWithCI :: "string \<Rightarrow> string \<Rightarrow> bool" where
  \<comment> \<open>\<open>t\<close> stands at the start of \<open>s\<close>, letter for letter\<close>
  "startsWithCI s [] = True"
| "startsWithCI [] (b # t) = False"
| "startsWithCI (a # s) (b # t) = (sameLetter a b \<and> startsWithCI s t)"

fun occursCI :: "string \<Rightarrow> string \<Rightarrow> bool" where
  \<comment> \<open>\<open>t\<close> stands somewhere in \<open>s\<close>, letter for letter\<close>
  "occursCI [] t = (t = [])"
| "occursCI (a # s) t = (startsWithCI (a # s) t \<or> occursCI s t)"

fun containsCI :: "jsval \<Rightarrow> string \<Rightarrow> bool" where
  "containsCI (JStr s) t = occursCI s t"
| "containsCI v t = False"

definition matchesSearch :: "string \<Rightarrow> coin \<Rightarrow> bool" where
  "matchesSearch search c = (containsCI (c ''name'') search \<or> containsCI (c ''symbol'') search)"

definition wellNamed :: "coin \<Rightarrow> bool" where
  "wellNamed c = (isString (c ''name'') \<and> isString (c ''symbol''))"

definition hasAmounts :: "coin \<Rightarrow> bool" where
  \<comment> \<open>price, volume and market capitalisation are there\<close>
  "hasAmounts c =
     list_all (\<lambda>f. c f \<noteq> JNull \<and> c f \<noteq> JUndefined)
       [''current_price'', ''total_volume'', ''market_cap'']"

definition missing :: "jsval \<Rightarrow> bool" where
  \<comment> \<open>\<open>null\<close>, or the \<open>undefined\<close> an absent property reads as\<close>
  "missing v = (v = JNull \<or> v = JUndefined)"

text \<open>A host to run examples on: no numeric strings, code-unit order, \<open>$\<close> for USD.\<close>

fun codeUnitCompare :: "string \<Rightarrow> string \<Rightarrow> int" where
  "codeUnitCompare [] [] = 0"
| "codeUnitCompare [] (b # bs) = - 1"
| "codeUnitCompare (a # as) [] = 1"
| "codeUnitCompare (a # as) (b # bs) =
     (if (of_char a :: nat) < of_char b then - 1
      else if (of_char b :: nat) < of_char a then 1
      else codeUnitCompare as bs)"

definition sampleHost :: host where
  "sampleHost =
     \<lparr> StringToNumber = (\<lambda>s. NaN),
       localeCompare = codeUnitCompare,
       currencySymbol = (\<lambda>c. if c = ''USD'' then ''$'' else c @ '' ''),
       infinitySymbol = ''Infinity'' \<rparr>"

text \<open>The three coins of the specification's scenario, and a page before its first fetch.\<close>

definition mkCoin :: "rat \<Rightarrow> string \<Rightarrow> string \<Rightarrow> jsnum \<Rightarrow> jsval \<Rightarrow> coin" where
  "mkCoin rank name symbol price change =
     (\<lambda>k. JUndefined)
       (''market_cap_rank'' := JNum (Fin rank),
        ''image'' := JStr (''/'' @ symbol @ ''.png''),
        ''name'' := JStr name,
        ''symbol'' := JStr symbol,
        ''current_price'' := JNum price,
        ''price_change_percentage_1h_in_currency'' := change,
        ''price_change_percentage_24h_in_currency'' := JNum (Fin (- 1)),
        ''price_change_percentage_7d_in_currency'' := JNum (Fin 0),
        ''total_volume'' := JNum (Fin 1234),
        ''market_cap'' := JNum (Fin 1000000))"

definition bitcoin :: coin where
  "bitcoin = mkCoin 1 ''Bitcoin'' ''btc'' (Fin 50000) (JNum (fl (12345 / 1000)))"

definition ethereum :: coin where
  "ethereum = mkCoin 2 ''Ethereum'' ''eth'' (Fin 3000) JNull"

definition dogecoin :: coin where
  "dogecoin = mkCoin 3 ''Dogecoin'' ''doge'' (fl (8 / 100)) (JNum (Fin (- 1 / 8)))"

definition sampleHeader :: "headerCell list" where
  "sampleHeader =
     [\<lparr>dataSortColumn = Some ''market_cap_rank'', dataDefaultSort = ''asc'',
        active = False, sortIcon = NoIcon\<rparr>,
      \<lparr>dataSortColumn = Some ''name'', dataDefaultSort = ''asc'',
        active = False, sortIcon = NoIcon\<rparr>,
      \<lparr>dataSortColumn = Some ''current_price'', dataDefaultSort = ''desc'',
        active = False, sortIcon = NoIcon\<rparr>]"

definition samplePage :: page where
  "samplePage =
     \<lparr> dataCurrency = ''usd'', dataSortBy = ''market_cap_rank'', dataSort = ''asc'',
       dataSearch = [], thead = sampleHeader, tbody = [], overlayShown = False,
       dropdownText = ''usd'', arrays = (\<lambda>a. []), nextArray = 1, lastFetchedData = 0,
       effects = [] \<rparr>"

definition sampleData :: "coin list" where
  \<comment> \<open>in the order the API returned them\<close>
  "sampleData = [ethereum, dogecoin, bitcoin]"

definition searchedPage :: "string \<Rightarrow> page" where
  \<comment> \<open>the sample page holding the sample, sorted by price downwards, with a search text\<close>
  "searchedPage search =
     samplePage\<lparr>arrays := (\<lambda>a. sampleData), dataSortBy := ''current_price'',
       dataSort := ''desc'', dataSearch := search\<rparr>"

section \<open>Evaluating the number model\<close>

text \<open>
  Floors and ceilings of rational numerals, and the digit loops unfolded on numerals, so
  that the simplifier computes \<open>fl\<close> and \<open>numToString\<close> on concrete numbers.
\<close>

lemma floor_rat_numeral [simp]:
  "\<lfloor>numeral a / numeral b :: rat\<rfloor> = numeral a div numeral b"
  using floor_divide_of_int_eq [of "numeral a" "numeral b", where ?'a = rat] by simp

lemma floor_rat_neg_numeral [simp]:
  "\<lfloor>- (numeral a / numeral b) :: rat\<rfloor> = - numeral a div numeral b"
  using floor_divide_of_int_eq [of "- numeral a" "numeral b", where ?'a = rat] by simp

lemma ceiling_rat_numeral [simp]:
  "\<lceil>numeral a / numeral b :: rat\<rceil> = - (- numeral a div numeral b)"
  unfolding ceiling_def using floor_rat_neg_numeral [of a b] by simp

lemma ceiling_rat_neg_numeral [simp]:
  "\<lceil>- (numeral a / numeral b) :: rat\<rceil> = - (numeral a div numeral b)"
  unfolding ceiling_def by simp

lemma floor_rat_one [simp]: "\<lfloor>1 / numeral b :: rat\<rfloor> = 1 div numeral b"
  using floor_divide_of_int_eq [of 1 "numeral b", where ?'a = rat] by simp

lemma floor_rat_neg_one [simp]: "\<lfloor>- (1 / numeral b) :: rat\<rfloor> = - 1 div numeral b"
  using floor_divide_of_int_eq [of "- 1" "numeral b", where ?'a = rat] by simp

lemma ceiling_rat_one [simp]: "\<lceil>1 / numeral b :: rat\<rceil> = - (- 1 div numeral b)"
  unfolding ceiling_def using floor_rat_neg_one [of b] by simp

lemma ceiling_rat_neg_one [simp]: "\<lceil>- (1 / numeral b) :: rat\<rceil> = - (1 div numeral b)"
  unfolding ceiling_def by simp

lemma numBits_numeral [simp]:
  "numBits (numeral k) = (if (numeral k :: int) < 2 then 1 else 1 + numBits (numeral k div 2))"
  by (rule numBits.simps)

lemma numBits_1 [simp]: "numBits 1 = 1"
  by (subst numBits.simps) simp

lemma numDigits_numeral [simp]:
  "numDigits (numeral k) = (if (numeral k :: int) < 10 then 1 else 1 + numDigits (numeral k div 10))"
  by (rule numDigits.simps)

lemma numDigits_1 [simp]: "numDigits 1 = 1"
  by (subst numDigits.simps) simp

lemma decimal_numeral [simp]:
  "decimal (numeral k) = (if (numeral k :: int) < 10 then [digitChar (numeral k)]
     else decimal (numeral k div 10) @ [digitChar (numeral k mod 10)])"
  by (rule decimal.simps)

lemma decimal_0 [simp]: "decimal 0 = ''0''"
  by (subst decimal.simps) (simp add: digitChar_def)

lemma decimal_1 [simp]: "decimal 1 = ''1''"
  by (subst decimal.simps) (simp add: digitChar_def)

lemma findDigits_numeral [simp]:
  "findDigits x k (numeral f) =
     (case digitsAt x k of
        Some (s, n) \<Rightarrow> (s, n, k)
      | None \<Rightarrow> findDigits x (Suc k) (pred_numeral f))"
  by (simp add: numeral_eq_Suc)

lemmas num_eval =
  fl_def flPos_def roundAt_def finOrInf_def ilog2_def roundHalfEven_def pow2_def pow10_def
  js_pow10_def decExp_def candidates_def gap_def digitsAt_def shortestDigits_def digitChar_def

section \<open>The percentage formatter\<close>

lemma Math_round_nearest:
  "of_int \<lfloor>x + 1 / 2\<rfloor> - 1 / 2 \<le> x \<and> x < of_int \<lfloor>x + 1 / 2\<rfloor> + 1 / (2 :: rat)"
  by linarith

lemma roundHalfAway_nonneg: "0 \<le> x \<Longrightarrow> roundHalfAway x = \<lfloor>x + 1 / 2\<rfloor>"
  by (simp add: roundHalfAway_def)

lemma roundHalfAway_no_tie:
  assumes "x - of_int \<lfloor>x\<rfloor> \<noteq> 1 / 2"
  shows "roundHalfAway x = \<lfloor>x + 1 / 2\<rfloor>"
proof (cases "0 \<le> x")
  case True
  then show ?thesis by (simp add: roundHalfAway_def)
next
  case False
  have "\<lceil>x - 1 / 2\<rceil> = \<lfloor>x + 1 / 2\<rfloor>"
  proof (rule ceiling_unique)
    show "of_int \<lfloor>x + 1 / 2\<rfloor> - 1 < x - 1 / 2"
    proof (rule ccontr)
      assume "\<not> of_int \<lfloor>x + 1 / 2\<rfloor> - 1 < x - 1 / 2"
      then have eq: "x = of_int \<lfloor>x + 1 / 2\<rfloor> - 1 / 2" by linarith
      have "\<lfloor>x\<rfloor> = \<lfloor>x + 1 / 2\<rfloor> - 1"
        by (rule floor_unique) (use eq in linarith)+
      with eq assms show False by simp
    qed
    show "x - 1 / 2 \<le> of_int \<lfloor>x + 1 / 2\<rfloor>" by linarith
  qed
  with False show ?thesis by (simp add: roundHalfAway_def)
qed

lemma roundHalfAway_negative_tie:
  assumes "x < 0" and "x - of_int \<lfloor>x\<rfloor> = 1 / 2"
  shows "\<lfloor>x + 1 / 2\<rfloor> = roundHalfAway x + 1"
proof -
  have "\<lceil>x - 1 / 2\<rceil> = \<lfloor>x\<rfloor>"
    by (rule ceiling_unique) (use assms in linarith)+
  moreover have "\<lfloor>x + 1 / 2\<rfloor> = \<lfloor>x\<rfloor> + 1"
    by (rule floor_unique) (use assms in linarith)+
  ultimately show ?thesis using assms by (simp add: roundHalfAway_def)
qed

lemma Math_round_spec_round: "\<not> negativeTie n \<Longrightarrow> Math_round n = spec_round n"
  by (cases n) (auto simp: roundHalfAway_nonneg roundHalfAway_no_tie not_less)

text \<open>
  C1, as the code has it.  \<open>formatPercentage(value, precision)\<close> prints the number
  obtained by rounding the product \<open>value * 10 ** precision\<close> with \<open>Math.round\<close> and
  dividing back, and appends \<open>%\<close>.  \<open>Math.round\<close> takes the nearest integer and sends
  a tie to the larger one: the result is that of rounding half away from zero unless the
  product is a negative tie, where it is one more.  \<open>formatPercentage(12.345)\<close> is
  \<open>12.35%\<close> and \<open>formatPercentage(-1)\<close> is \<open>-1%\<close>.
\<close>

theorem formatPercentage_rounding:
  "(\<not> negativeTie (js_mul (ToNumber h value) (js_pow10 p)) \<longrightarrow>
      formatPercentage h value p = spec_formatPercentage h value p)
   \<and> (js_mul (ToNumber h value) (js_pow10 p) = Fin x \<and> negativeTie (Fin x) \<longrightarrow>
      formatPercentage h value p =
        numToString (js_div (Fin (of_int (roundHalfAway x + 1))) (js_pow10 p)) @ ''%'')
   \<and> formatPercentage h (JNum (fl (12345 / 1000))) 2 = ''12.35%''
   \<and> formatPercentage h (JNum (Fin (- 1))) 2 = ''-1%''"
proof (intro conjI impI)
  assume "\<not> negativeTie (js_mul (ToNumber h value) (js_pow10 p))"
  then show "formatPercentage h value p = spec_formatPercentage h value p"
    by (simp add: formatPercentage_def spec_formatPercentage_def Math_round_spec_round)
next
  assume a: "js_mul (ToNumber h value) (js_pow10 p) = Fin x \<and> negativeTie (Fin x)"
  then have "\<lfloor>x + 1 / 2\<rfloor> = roundHalfAway x + 1"
    by (simp add: roundHalfAway_negative_tie)
  with a show "formatPercentage h value p =
      numToString (js_div (Fin (of_int (roundHalfAway x + 1))) (js_pow10 p)) @ ''%''"
    by (simp add: formatPercentage_def)
next
  show "formatPercentage h (JNum (fl (12345 / 1000))) 2 = ''12.35%''"
    by (simp add: formatPercentage_def num_eval)
next
  show "formatPercentage h (JNum (Fin (- 1))) 2 = ''-1%''"
    by (simp add: formatPercentage_def num_eval)
qed

theorem formatPercentage_rounding_witness:
  "formatPercentage sampleHost (JNum (Fin (1 / 8))) 2
     = spec_formatPercentage sampleHost (JNum (Fin (1 / 8))) 2
   \<and> formatPercentage sampleHost (JNum (Fin (- 1 / 8))) 2 = ''-0.12%''"
proof
  have "\<not> negativeTie (js_mul (ToNumber sampleHost (JNum (Fin (1 / 8)))) (js_pow10 2))"
    by (simp add: num_eval)
  with formatPercentage_rounding [of sampleHost "JNum (Fin (1 / 8))" 2]
  show "formatPercentage sampleHost (JNum (Fin (1 / 8))) 2
     = spec_formatPercentage sampleHost (JNum (Fin (1 / 8))) 2"
    by blast
next
  have "js_mul (ToNumber sampleHost (JNum (Fin (- 1 / 8)))) (js_pow10 2) = Fin (- 25 / 2)
        \<and> negativeTie (Fin (- 25 / 2))"
    by (simp add: num_eval)
  with formatPercentage_rounding [of sampleHost "JNum (Fin (- 1 / 8))" 2 "- 25 / 2"]
  have "formatPercentage sampleHost (JNum (Fin (- 1 / 8))) 2 =
      numToString (js_div (Fin (of_int (roundHalfAway (- 25 / 2) + 1))) (js_pow10 2)) @ ''%''"
    by blast
  then show "formatPercentage sampleHost (JNum (Fin (- 1 / 8))) 2 = ''-0.12%''"
    by (simp add: roundHalfAway_def num_eval)
qed

text \<open>
  C1 as stated fails: at \<open>-0.125\<close> the product is \<open>-12.5\<close>, which \<open>Math.round\<close>
  takes to \<open>-12\<close> and rounding half away from zero to \<open>-13\<close>.
\<close>

theorem formatPercentage_half_away_counterexample:
  "formatPercentage sampleHost (JNum (Fin (- 1 / 8))) 2 = ''-0.12%''
   \<and> spec_formatPercentage sampleHost (JNum (Fin (- 1 / 8))) 2 = ''-0.13%''
   \<and> formatPercentage sampleHost (JNum (Fin (- 1 / 8))) 2
       \<noteq> spec_formatPercentage sampleHost (JNum (Fin (- 1 / 8))) 2"
  by (simp add: formatPercentage_def spec_formatPercentage_def roundHalfAway_def num_eval)

text \<open>
  C10.  Applied to \<open>null\<close>, \<open>formatPercentage\<close> returns exactly \<open>0%\<close>: \<open>null\<close>
  becomes the number 0 before the rounding, so that a missing percentage prints as a true
  change of zero percent does.
\<close>

theorem formatPercentage_null:
  "formatPercentage h JNull 2 = ''0%''
   \<and> ToNumber h JNull = Fin 0
   \<and> formatPercentage h JNull 2 = formatPercentage h (JNum (Fin 0)) 2"
  by (simp add: formatPercentage_def num_eval)

section \<open>The currency formatter\<close>

lemma isDigit_digitChar: "isDigit (digitChar d)"
proof -
  have "nat (d mod 10) < length ''0123456789''" by simp
  then have "''0123456789'' ! nat (d mod 10) \<in> set ''0123456789''" by (rule nth_mem)
  then show ?thesis by (simp only: isDigit_def digitChar_def)
qed

lemma digits_decimal: "list_all isDigit (decimal n)"
proof (induction n rule: decimal.induct)
  case (1 n)
  show ?case
  proof (cases "n < 10")
    case True
    then show ?thesis by (subst decimal.simps) (simp add: isDigit_digitChar)
  next
    case False
    with 1 show ?thesis by (subst decimal.simps) (simp add: isDigit_digitChar)
  qed
qed

lemma length_decimal: "0 < d \<Longrightarrow> n < 10 ^ d \<Longrightarrow> length (decimal n) \<le> d"
proof (induction n arbitrary: d rule: decimal.induct)
  case (1 n)
  show ?case
  proof (cases "n < 10")
    case True
    with 1(2) show ?thesis by (subst decimal.simps) simp
  next
    case False
    with 1(3) have "1 < d" by (cases "d = 1") (use 1(2) in auto)
    then obtain d' where d: "d = Suc d'" and d': "0 < d'" by (cases d) auto
    from 1(3) d have "n div 10 < 10 ^ d'" by simp
    with 1(1) False d' have "length (decimal (n div 10)) \<le> d'" by blast
    with False d show ?thesis by (subst decimal.simps) simp
  qed
qed

lemma length_padFraction: "0 < d \<Longrightarrow> m < 10 ^ d \<Longrightarrow> length (padFraction d m) = d"
  using length_decimal [of d m] by (simp add: padFraction_def)

lemma digits_padFraction: "list_all isDigit (padFraction d m)"
proof -
  have "isDigit (CHR ''0'')" by (simp add: isDigit_def)
  with digits_decimal [of m] show ?thesis
    by (auto simp: padFraction_def list_all_iff)
qed

lemma fractionDigits_point:
  assumes "list_all isDigit ds"
  shows "fractionDigits (pre @ ''.'' @ ds) = length ds"
proof -
  have ds: "\<And>c. c \<in> set (rev ds) \<Longrightarrow> isDigit c"
    using assms by (simp add: list_all_iff)
  have point: "\<not> isDigit (CHR ''.'')" by (simp add: isDigit_def)
  have "takeWhile isDigit (rev ds @ CHR ''.'' # rev pre) = rev ds @ takeWhile isDigit (CHR ''.'' # rev pre)"
    by (rule takeWhile_append2) (rule ds)
  then have t: "takeWhile isDigit (rev ds @ CHR ''.'' # rev pre) = rev ds"
    using point by simp
  have "dropWhile isDigit (rev ds @ CHR ''.'' # rev pre) = dropWhile isDigit (CHR ''.'' # rev pre)"
    by (rule dropWhile_append2) (rule ds)
  then have d: "dropWhile isDigit (rev ds @ CHR ''.'' # rev pre) = CHR ''.'' # rev pre"
    using point by simp
  show ?thesis by (simp add: fractionDigits_def t d)
qed

lemma fractionDigits_no_point:
  assumes "CHR ''.'' \<notin> set s"
  shows "fractionDigits s = 0"
proof (cases "dropWhile isDigit (rev s)")
  case Nil
  show ?thesis unfolding fractionDigits_def Nil by simp
next
  case (Cons c cs)
  then have "c \<in> set (dropWhile isDigit (rev s))" by simp
  then have "c \<in> set s" using set_dropWhileD by fastforce
  with assms have "c \<noteq> CHR ''.''" by blast
  then show ?thesis unfolding fractionDigits_def Cons by simp
qed

lemma set_commas: "set (commas r) \<subseteq> insert (CHR '','') (set r)"
  by (induction r rule: commas.induct) auto

lemma no_point_group3: "CHR ''.'' \<notin> set (group3 (decimal n))"
proof -
  have "\<not> isDigit (CHR ''.'')" by (simp add: isDigit_def)
  with digits_decimal [of n] have "CHR ''.'' \<notin> set (decimal n)"
    by (auto simp: list_all_iff)
  with set_commas [of "rev (decimal n)"] show ?thesis
    by (auto simp: group3_def)
qed

lemma no_point_fixedDigits_0: "CHR ''.'' \<notin> set (fixedDigits x 0)"
  by (simp add: fixedDigits_def no_point_group3)

lemma fractionDigits_currency:
  assumes "CHR ''.'' \<notin> set (currencySymbol h (map upperChar cur))"
  shows "fractionDigits (currencyString h (Fin x) cur d) = d"
proof (cases "d = 0")
  case True
  have "CHR ''.'' \<notin> set (currencyString h (Fin x) cur 0)"
    using assms no_point_fixedDigits_0 [of x] by simp
  with True show ?thesis by (simp add: fractionDigits_no_point)
next
  case False
  have "scaled x d mod 10 ^ d < 10 ^ d" by simp
  with False have len: "length (padFraction d (scaled x d mod 10 ^ d)) = d"
    by (simp add: length_padFraction)
  have "currencyString h (Fin x) cur d =
      ((if x < 0 then ''-'' else []) @ currencySymbol h (map upperChar cur)
        @ group3 (decimal (scaled x d div 10 ^ d)))
      @ ''.'' @ padFraction d (scaled x d mod 10 ^ d)"
    using False by (simp add: fixedDigits_def)
  then show ?thesis
    by (simp only: fractionDigits_point [OF digits_padFraction] len)
qed

text \<open>
  C5.  For a finite number and a well-formed currency code, \<open>formatCurrency\<close> prints
  no fraction digit when \<open>showDecimals\<close> is false, five when it is true and the value is
  below 1, and two otherwise.  (The symbols of the en-US pattern hold no decimal point.)
\<close>

theorem formatCurrency_fraction_digits:
  assumes "wellFormedCurrency cur"
    and "CHR ''.'' \<notin> set (currencySymbol h (map upperChar cur))"
  shows "\<exists>s. formatCurrency h (JNum (Fin x)) cur showDecimals = Inr s
           \<and> fractionDigits s = (if \<not> showDecimals then 0 else if x < 1 then 5 else 2)"
  using assms by (simp add: formatCurrency_def fractionDigits_currency del: currencyString.simps)

lemmas char_eval =
  upperChar_def lowerChar_def isLetter_def wellFormedCurrency_def char_of_def bit_0

lemmas currency_eval =
  formatCurrency_def sampleHost_def fixedDigits_def scaled_def group3_def padFraction_def
  digitChar_def char_eval

theorem formatCurrency_fraction_digits_witness:
  "formatCurrency sampleHost (JNum (Fin (1 / 2))) ''USD'' True = Inr ''$0.50000''
   \<and> fractionDigits ''$0.50000'' = 5
   \<and> formatCurrency sampleHost (JNum (Fin 5)) ''USD'' True = Inr ''$5.00''
   \<and> fractionDigits ''$5.00'' = 2
   \<and> formatCurrency sampleHost (JNum (Fin 1234)) ''USD'' False = Inr ''$1,234''
   \<and> fractionDigits ''$1,234'' = 0"
proof -
  have wf: "wellFormedCurrency ''USD''"
    by (simp add: char_eval)
  have sym: "CHR ''.'' \<notin> set (currencySymbol sampleHost (map upperChar ''USD''))"
    by (simp add: sampleHost_def char_eval)
  have a: "formatCurrency sampleHost (JNum (Fin (1 / 2))) ''USD'' True = Inr ''$0.50000''"
    by (simp add: currency_eval)
  have b: "formatCurrency sampleHost (JNum (Fin 5)) ''USD'' True = Inr ''$5.00''"
    by (simp add: currency_eval)
  have c: "formatCurrency sampleHost (JNum (Fin 1234)) ''USD'' False = Inr ''$1,234''"
    by (simp add: currency_eval)
  from formatCurrency_fraction_digits [OF wf sym, of "1 / 2" True] a
  have "fractionDigits ''$0.50000'' = 5" by simp
  moreover from formatCurrency_fraction_digits [OF wf sym, of 5 True] b
  have "fractionDigits ''$5.00'' = 2" by simp
  moreover from formatCurrency_fraction_digits [OF wf sym, of 1234 False] c
  have "fractionDigits ''$1,234'' = 0" by simp
  ultimately show ?thesis using a b c by simp
qed

section \<open>What rendering leaves alone\<close>

lemma renderRows_frame:
  "renderRows h data s = (c, s') \<Longrightarrow>
     dataSortBy s' = dataSortBy s \<and> dataSort s' = dataSort s \<and> dataSearch s' = dataSearch s
     \<and> dataCurrency s' = dataCurrency s \<and> effects s' = effects s
     \<and> overlayShown s' = overlayShown s \<and> lastFetchedData s' = lastFetchedData s
     \<and> dropdownText s' = dropdownText s \<and> arrays s' = arrays s \<and> thead s' = thead s
     \<and> nextArray s' = nextArray s"
proof (induction data arbitrary: s)
  case Nil
  then show ?case by simp
next
  case (Cons coin data)
  show ?case
  proof (cases "renderRow h (dataCurrency s) coin")
    case (Inl e)
    with Cons.prems show ?thesis by simp
  next
    case (Inr r)
    with Cons.prems have "renderRows h data (s\<lparr>tbody := tbody s @ [r]\<rparr>) = (c, s')" by simp
    from Cons.IH [OF this] show ?thesis by simp
  qed
qed

lemma renderTable_frame:
  assumes "renderTable h a s = (c, s')"
  shows "dataSortBy s' = dataSortBy s \<and> dataSort s' = dataSort s \<and> dataSearch s' = dataSearch s
     \<and> dataCurrency s' = dataCurrency s \<and> effects s' = effects s
     \<and> overlayShown s' = overlayShown s \<and> lastFetchedData s' = lastFetchedData s
     \<and> dropdownText s' = dropdownText s \<and> nextArray s' = nextArray s"
proof (cases "js_sort (sortByColumn h (dataSortBy s) (dataSort s)) (arrays s a)")
  case (Inl e)
  with assms show ?thesis by (simp add: renderTable_def)
next
  case sorted: (Inr sortedData)
  show ?thesis
  proof (cases "js_filter (filterBySearch (dataSearch s)) sortedData")
    case (Inl e)
    with assms sorted show ?thesis by (auto simp: renderTable_def)
  next
    case filtered: (Inr filteredData)
    obtain c1 s1 where rr: "renderRows h filteredData
        (clearRows (s\<lparr>arrays := (arrays s)(a := sortedData)\<rparr>)) = (c1, s1)"
      by (cases "renderRows h filteredData (clearRows (s\<lparr>arrays := (arrays s)(a := sortedData)\<rparr>))")
    note fr = renderRows_frame [OF rr]
    show ?thesis
    proof (cases c1)
      case Normal
      with assms sorted filtered rr have "s' = updateHeader s1" by (simp add: renderTable_def)
      with fr show ?thesis by (simp add: updateHeader_def clearRows_def)
    next
      case (Throw e)
      with assms sorted filtered rr have "s' = s1" by (simp add: renderTable_def)
      with fr show ?thesis by (simp add: clearRows_def)
    qed
  qed
qed

lemma renderTable_frame_snd:
  "dataSortBy (snd (renderTable h a s)) = dataSortBy s"
  "dataSort (snd (renderTable h a s)) = dataSort s"
  "dataSearch (snd (renderTable h a s)) = dataSearch s"
  "dataCurrency (snd (renderTable h a s)) = dataCurrency s"
  "effects (snd (renderTable h a s)) = effects s"
  "overlayShown (snd (renderTable h a s)) = overlayShown s"
  "lastFetchedData (snd (renderTable h a s)) = lastFetchedData s"
  "dropdownText (snd (renderTable h a s)) = dropdownText s"
  "nextArray (snd (renderTable h a s)) = nextArray s"
  using renderTable_frame [of h a s "fst (renderTable h a s)" "snd (renderTable h a s)"]
  by simp_all

section \<open>The interaction controller\<close>

text \<open>
  C4.  With the direction \<open>asc\<close> or \<open>desc\<close>: a click on a header of another field sets
  \<open>sortBy\<close> to that field and the direction to the header's default; a click on the header
  of the current field keeps \<open>sortBy\<close> and flips the direction, and a second click on it
  brings the first direction back.
\<close>

theorem updateSort_state_machine:
  assumes "dataSort s = ''asc'' \<or> dataSort s = ''desc''"
  shows "(dataSortColumn cell = Some newSortBy \<and> dataDefaultSort cell = defaultSort \<longrightarrow>
            onSortColumnClick h cell s = updateSort h newSortBy defaultSort s)
       \<and> (newSortBy \<noteq> dataSortBy s \<longrightarrow>
            dataSortBy (snd (updateSort h newSortBy defaultSort s)) = newSortBy
            \<and> dataSort (snd (updateSort h newSortBy defaultSort s)) = defaultSort)
       \<and> (newSortBy = dataSortBy s \<longrightarrow>
            dataSortBy (snd (updateSort h newSortBy defaultSort s)) = dataSortBy s
            \<and> dataSort (snd (updateSort h newSortBy defaultSort s))
                = (if dataSort s = ''asc'' then ''desc'' else ''asc'')
            \<and> dataSortBy (snd (updateSort h newSortBy defaultSort
                  (snd (updateSort h newSortBy defaultSort s)))) = dataSortBy s
            \<and> dataSort (snd (updateSort h newSortBy defaultSort
                  (snd (updateSort h newSortBy defaultSort s)))) = dataSort s)"
  using assms by (auto simp: updateSort_def onSortColumnClick_def renderTable_frame_snd)

theorem updateSort_state_machine_witness:
  "(dataSort samplePage = ''asc'' \<or> dataSort samplePage = ''desc'')
   \<and> dataSortBy (snd (onSortColumnClick sampleHost (sampleHeader ! 2) samplePage))
       = ''current_price''
   \<and> dataSort (snd (onSortColumnClick sampleHost (sampleHeader ! 2) samplePage)) = ''desc''
   \<and> dataSort (snd (updateSort sampleHost ''market_cap_rank'' ''asc'' samplePage)) = ''desc''
   \<and> dataSort (snd (updateSort sampleHost ''market_cap_rank'' ''asc''
         (snd (updateSort sampleHost ''market_cap_rank'' ''asc'' samplePage)))) = ''asc''"
proof -
  have d: "dataSort samplePage = ''asc'' \<or> dataSort samplePage = ''desc''"
    by (simp add: samplePage_def)
  have by': "dataSortBy samplePage = ''market_cap_rank''" "dataSort samplePage = ''asc''"
    by (simp_all add: samplePage_def)
  have cell: "dataSortColumn (sampleHeader ! 2) = Some ''current_price''
      \<and> dataDefaultSort (sampleHeader ! 2) = ''desc''"
    by (simp add: sampleHeader_def)
  from updateSort_state_machine [OF d, of "sampleHeader ! 2" "''current_price''" "''desc''" sampleHost]
    updateSort_state_machine [OF d, of _ "''market_cap_rank''" "''asc''" sampleHost]
  show ?thesis using d by' cell by simp
qed

text \<open>
  C2, as the code has it.  A currency change shows the overlay once right before the
  request.  When the request settles with the parsed data the overlay is hidden once right
  after, before anything is rendered; when the request fails, \<open>fetchAndRenderTable\<close>
  throws at its \<open>await\<close> and the overlay stays shown.
\<close>

theorem updateCurrency_overlay:
  "newEffects s (snd (updateCurrency h currency (Inr data) s))
      = [OverlayShow, Request (marketUrl currency), OverlayHide]
   \<and> shownAndHiddenOnce (newEffects s (snd (updateCurrency h currency (Inr data) s)))
   \<and> \<not> overlayShown (snd (updateCurrency h currency (Inr data) s))
   \<and> fst (updateCurrency h currency (Inl e) s) = Throw e
   \<and> newEffects s (snd (updateCurrency h currency (Inl e) s))
      = [OverlayShow, Request (marketUrl currency)]
   \<and> overlayShown (snd (updateCurrency h currency (Inl e) s))"
  by (simp add: updateCurrency_def fetchAndRenderTable_def fetchResume_def fetchStart_def
      newEffects_def renderTable_frame_snd)

text \<open>
  C2 as stated fails when the request is rejected: the overlay is shown and never hidden.
\<close>

theorem updateCurrency_overlay_counterexample:
  "\<not> shownAndHiddenOnce
        (newEffects samplePage (snd (updateCurrency sampleHost ''eur'' (Inl NetworkError) samplePage)))
   \<and> OverlayHide \<notin> set (effects (snd (updateCurrency sampleHost ''eur'' (Inl NetworkError) samplePage)))
   \<and> overlayShown (snd (updateCurrency sampleHost ''eur'' (Inl NetworkError) samplePage))"
  by (simp add: updateCurrency_def fetchAndRenderTable_def fetchResume_def fetchStart_def
      newEffects_def samplePage_def)

section \<open>Filtering\<close>

lemma js_filter_idem: "js_filter p xs = Inr ys \<Longrightarrow> js_filter p ys = Inr ys"
proof (induction xs arbitrary: ys)
  case Nil
  then show ?case by simp
next
  case (Cons x xs)
  from Cons.prems obtain b zs where px: "p x = Inr b" and zs: "js_filter p xs = Inr zs"
    and ys: "ys = (if b then x # zs else zs)"
    by (auto split: sum.splits)
  from Cons.IH [OF zs] have "js_filter p zs = Inr zs" .
  with px ys show ?case by (cases b) simp_all
qed

text \<open>
  C7.  Filtering by a search text is idempotent: filtering the result of the filter again,
  with the same text, returns the same sequence of records (and a filter that throws has
  thrown the first time).
\<close>

theorem filterBySearch_idempotent:
  "(case js_filter (filterBySearch search) data of
      Inl e \<Rightarrow> Inl e
    | Inr kept \<Rightarrow> js_filter (filterBySearch search) kept)
   = js_filter (filterBySearch search) data"
  by (cases "js_filter (filterBySearch search) data") (simp_all add: js_filter_idem)

section \<open>Sorting\<close>

lemma insertSorted_mset: "insertSorted cmp x ys = Inr zs \<Longrightarrow> mset zs = add_mset x (mset ys)"
proof (induction ys arbitrary: zs)
  case Nil
  then show ?case by auto
next
  case (Cons y ys)
  then show ?case by (auto split: sum.splits if_splits)
qed

lemma sortInto_mset: "sortInto cmp acc xs = Inr zs \<Longrightarrow> mset zs = mset acc + mset xs"
proof (induction xs arbitrary: acc zs)
  case Nil
  then show ?case by simp
next
  case (Cons x xs)
  from Cons.prems obtain acc' where i: "insertSorted cmp x acc = Inr acc'"
    and r: "sortInto cmp acc' xs = Inr zs"
    by (auto split: sum.splits)
  from Cons.IH [OF r] insertSorted_mset [OF i] show ?case by simp
qed

lemma js_sort_mset: "js_sort cmp xs = Inr zs \<Longrightarrow> mset zs = mset xs"
  using sortInto_mset [of cmp "[]" xs zs] by (simp add: js_sort_def)

lemma insertSorted_total:
  assumes "neverThrows cmp (insert x (set ys))"
  shows "\<exists>zs. insertSorted cmp x ys = Inr zs"
  using assms
proof (induction ys)
  case Nil
  then show ?case by simp
next
  case (Cons y ys)
  from Cons.prems obtain v where v: "cmp y x = Inr v"
    by (auto simp: neverThrows_def)
  from Cons.prems have "neverThrows cmp (insert x (set ys))"
    by (auto simp: neverThrows_def)
  from Cons.IH [OF this] obtain zs where "insertSorted cmp x ys = Inr zs" by blast
  with v show ?case by simp
qed

lemma sortInto_total:
  assumes "neverThrows cmp (set acc \<union> set xs)"
  shows "\<exists>zs. sortInto cmp acc xs = Inr zs"
  using assms
proof (induction xs arbitrary: acc)
  case Nil
  then show ?case by simp
next
  case (Cons x xs)
  from Cons.prems have "neverThrows cmp (insert x (set acc))"
    by (auto simp: neverThrows_def)
  from insertSorted_total [OF this] obtain acc' where i: "insertSorted cmp x acc = Inr acc'"
    by blast
  from insertSorted_mset [OF i] have "set acc' = insert x (set acc)"
    by (metis set_mset_add_mset_insert set_mset_mset)
  with Cons.prems have "neverThrows cmp (set acc' \<union> set xs)" by simp
  from Cons.IH [OF this] i show ?case by simp
qed

lemma js_sort_total: "neverThrows cmp (set xs) \<Longrightarrow> \<exists>zs. js_sort cmp xs = Inr zs"
  using sortInto_total [of cmp "[]" xs] by (simp add: js_sort_def)

lemma insertSorted_sorted:
  assumes "consistentOn cmp A" and "insert x (set ys) \<subseteq> A"
    and "sorted_wrt (\<lambda>a b. \<not> comesAfter cmp a b) ys"
    and "insertSorted cmp x ys = Inr zs"
  shows "sorted_wrt (\<lambda>a b. \<not> comesAfter cmp a b) zs"
  using assms(2-4)
proof (induction ys arbitrary: zs)
  case Nil
  then show ?case by auto
next
  case (Cons y ys)
  from Cons.prems(3) obtain v where v: "cmp y x = Inr v" by (auto split: sum.splits)
  show ?case
  proof (cases "js_lt (Fin 0) v")
    case True
    with v Cons.prems(3) have zs: "zs = x # y # ys" by simp
    from True v have yx: "comesAfter cmp y x" by (simp add: comesAfter_def)
    with assms(1) Cons.prems(1) have xy: "\<not> comesAfter cmp x y"
      by (auto simp: consistentOn_def)
    have "\<not> comesAfter cmp x y'" if "y' \<in> set ys" for y'
    proof -
      from Cons.prems(2) that have "\<not> comesAfter cmp y y'" by simp
      with xy assms(1) Cons.prems(1) that show ?thesis
        unfolding consistentOn_def by (meson insert_subset list.set_intros(1,2) subsetD)
    qed
    with xy Cons.prems(2) zs show ?thesis by auto
  next
    case False
    with v Cons.prems(3) obtain zs' where i: "insertSorted cmp x ys = Inr zs'"
      and zs: "zs = y # zs'"
      by (auto split: sum.splits)
    from False v have yx: "\<not> comesAfter cmp y x" by (simp add: comesAfter_def)
    from Cons.prems have "sorted_wrt (\<lambda>a b. \<not> comesAfter cmp a b) zs'"
      using Cons.IH [OF _ _ i] by auto
    moreover from insertSorted_mset [OF i] have "set zs' = insert x (set ys)"
      by (metis set_mset_add_mset_insert set_mset_mset)
    ultimately show ?thesis using zs yx Cons.prems(2) by auto
  qed
qed

lemma sortInto_sorted:
  assumes "consistentOn cmp A" and "set acc \<union> set xs \<subseteq> A"
    and "sorted_wrt (\<lambda>a b. \<not> comesAfter cmp a b) acc"
    and "sortInto cmp acc xs = Inr zs"
  shows "sorted_wrt (\<lambda>a b. \<not> comesAfter cmp a b) zs"
  using assms(2-4)
proof (induction xs arbitrary: acc)
  case Nil
  then show ?case by simp
next
  case (Cons x xs)
  from Cons.prems(3) obtain acc' where i: "insertSorted cmp x acc = Inr acc'"
    and r: "sortInto cmp acc' xs = Inr zs"
    by (auto split: sum.splits)
  from Cons.prems(1) have sub: "insert x (set acc) \<subseteq> A" by auto
  from insertSorted_sorted [OF assms(1) sub Cons.prems(2) i]
  have s: "sorted_wrt (\<lambda>a b. \<not> comesAfter cmp a b) acc'" .
  from insertSorted_mset [OF i] have "set acc' = insert x (set acc)"
    by (metis set_mset_add_mset_insert set_mset_mset)
  with Cons.prems(1) have "set acc' \<union> set xs \<subseteq> A" by auto
  from Cons.IH [OF this s r] show ?case .
qed

lemma js_sort_sorted:
  assumes "consistentOn cmp (set xs)" and "js_sort cmp xs = Inr zs"
  shows "sorted_wrt (\<lambda>a b. \<not> comesAfter cmp a b) zs"
  using sortInto_sorted [OF assms(1), of "[]" xs zs] assms(2) by (simp add: js_sort_def)

lemma sorted_wrt_unique:
  assumes "sorted_wrt R xs" and "sorted_wrt R ys" and "mset xs = mset ys"
    and "\<And>a b. a \<in> set xs \<Longrightarrow> b \<in> set xs \<Longrightarrow> R a b \<Longrightarrow> R b a \<Longrightarrow> a = b"
  shows "xs = ys"
  using assms
proof (induction xs arbitrary: ys)
  case Nil
  then show ?case by simp
next
  case (Cons x xs)
  from Cons.prems(3) obtain y ys' where ys: "ys = y # ys'" by (cases ys) auto
  have sets: "set (x # xs) = set (y # ys')"
    using Cons.prems(3) ys by (metis set_mset_mset)
  have "x = y"
  proof (rule ccontr)
    assume ne: "x \<noteq> y"
    with sets have yin: "y \<in> set xs" and xin: "x \<in> set ys'" by auto
    from Cons.prems(1) yin have xy: "R x y" by simp
    from Cons.prems(2) ys xin have yx: "R y x" by simp
    from yin have "y \<in> set (x # xs)" by simp
    from Cons.prems(4) [OF _ this xy yx] ne show False by simp
  qed
  with Cons.prems ys have "xs = ys'"
    by (intro Cons.IH) auto
  with \<open>x = y\<close> ys show ?case by simp
qed

section \<open>The sign of a rounded difference\<close>

lemma pow2_powi: "pow2 e = 2 powi e"
  by (simp add: pow2_def power_int_def inverse_eq_divide power_one_over)

lemma pow2_pos: "0 < pow2 e"
  by (simp add: pow2_powi)

lemma pow2_add: "pow2 (a + b) = pow2 a * pow2 b"
  by (simp add: pow2_powi power_int_add)

lemma pow2_mono: "a \<le> b \<Longrightarrow> pow2 a \<le> pow2 b"
  by (simp add: pow2_powi power_int_increasing)

lemma pow2_nat: "0 \<le> e \<Longrightarrow> pow2 e = of_int (2 ^ nat e)"
  by (simp add: pow2_def)

lemma numBits_bounds: "0 \<le> n \<Longrightarrow> 1 \<le> numBits n \<and> n < 2 ^ nat (numBits n)
    \<and> (1 \<le> n \<longrightarrow> 2 ^ nat (numBits n - 1) \<le> n)"
proof (induction n rule: numBits.induct)
  case (1 n)
  show ?case
  proof (cases "n < 2")
    case True
    with 1(2) show ?thesis by (subst (1 2 3) numBits.simps) auto
  next
    case False
    then have half: "0 \<le> n div 2" "1 \<le> n div 2" by simp_all
    from 1(1) [OF False half(1)] half(2)
    have ih: "1 \<le> numBits (n div 2)" "n div 2 < 2 ^ nat (numBits (n div 2))"
      "2 ^ nat (numBits (n div 2) - 1) \<le> n div 2" by simp_all
    have eq: "numBits n = 1 + numBits (n div 2)"
      using False by (subst numBits.simps) simp
    from ih(1) have n1: "nat (1 + numBits (n div 2)) = Suc (nat (numBits (n div 2)))"
      by simp
    from ih(1) have n2: "nat (numBits (n div 2)) = Suc (nat (numBits (n div 2) - 1))"
      by simp
    from ih(2) have "n < 2 * 2 ^ nat (numBits (n div 2))" by linarith
    moreover from ih(3) have "2 * 2 ^ nat (numBits (n div 2) - 1) \<le> n" by linarith
    ultimately show ?thesis using ih(1) by (simp add: eq n1) (simp add: n2)
  qed
qed

lemma ilog2_le:
  assumes "0 < a"
  shows "pow2 (ilog2 a) \<le> a"
proof (cases "1 \<le> a")
  case True
  then have f: "1 \<le> \<lfloor>a\<rfloor>" by simp
  with numBits_bounds [of "\<lfloor>a\<rfloor>"] have b: "1 \<le> numBits \<lfloor>a\<rfloor>"
    and le: "2 ^ nat (numBits \<lfloor>a\<rfloor> - 1) \<le> \<lfloor>a\<rfloor>" by simp_all
  from b have "pow2 (numBits \<lfloor>a\<rfloor> - 1) = of_int (2 ^ nat (numBits \<lfloor>a\<rfloor> - 1))"
    by (simp add: pow2_nat)
  also from le have "\<dots> \<le> of_int \<lfloor>a\<rfloor>" by (simp only: of_int_le_iff)
  also have "\<dots> \<le> a" by simp
  finally show ?thesis using True by (simp add: ilog2_def)
next
  case False
  with assms have "1 < 1 / a" by simp
  then have c: "0 \<le> \<lceil>1 / a\<rceil> - 1" by linarith
  define j where "j = numBits (\<lceil>1 / a\<rceil> - 1)"
  from numBits_bounds [OF c] have j: "1 \<le> j" and up: "\<lceil>1 / a\<rceil> - 1 < 2 ^ nat j"
    by (simp_all add: j_def)
  from up have "\<lceil>1 / a\<rceil> \<le> 2 ^ nat j" by linarith
  then have "of_int \<lceil>1 / a\<rceil> \<le> (of_int (2 ^ nat j) :: rat)" by (simp only: of_int_le_iff)
  with le_of_int_ceiling [of "1 / a"] have "1 / a \<le> (of_int (2 ^ nat j) :: rat)"
    by (rule order_trans)
  then have "1 / a \<le> 2 ^ nat j" by simp
  with assms have "1 / 2 ^ nat j \<le> a"
    by (simp add: field_simps)
  moreover from j have "pow2 (- j) = 1 / 2 ^ nat j" by (simp add: pow2_def)
  ultimately show ?thesis using False by (simp add: ilog2_def j_def)
qed

lemma roundHalfEven_ge: "1 \<le> t \<Longrightarrow> 1 \<le> roundHalfEven t"
proof -
  assume "1 \<le> t"
  then have "1 \<le> \<lfloor>t\<rfloor>" by simp
  then show ?thesis by (simp add: roundHalfEven_def)
qed

lemma flPos_positive:
  assumes "0 < a" and "a = of_int m * pow2 (- 1074)"
  shows "js_lt (Fin 0) (flPos a)"
proof -
  define e where "e = max (ilog2 a) (- 1022)"
  have q: "pow2 (e - 52) \<le> a"
  proof (cases "ilog2 a \<le> - 1022")
    case True
    then have "e = - 1022" by (simp add: e_def)
    then have "pow2 (e - 52) = pow2 (- 1074)" by simp
    moreover have "1 \<le> m"
    proof -
      from assms have "0 < of_int m * pow2 (- 1074)" by simp
      with pow2_pos [of "- 1074"] have "(0::rat) < of_int m"
        by (simp add: zero_less_mult_iff)
      then show ?thesis by simp
    qed
    then have "1 * pow2 (- 1074) \<le> of_int m * pow2 (- 1074)"
      using pow2_pos [of "- 1074"] by (intro mult_right_mono) simp_all
    ultimately show ?thesis using assms(2) by (simp only: mult_1)
  next
    case False
    then have "e = ilog2 a" by (simp add: e_def)
    then have "pow2 (e - 52) \<le> pow2 (ilog2 a)" by (simp add: pow2_mono)
    with ilog2_le [OF assms(1)] show ?thesis by simp
  qed
  then have "1 \<le> a / pow2 (e - 52)" using pow2_pos [of "e - 52"] by (simp add: field_simps)
  then have "1 \<le> roundHalfEven (a / pow2 (e - 52))" by (rule roundHalfEven_ge)
  then have "(0::rat) < of_int (roundHalfEven (a / pow2 (e - 52)))" by simp
  then have "0 < of_int (roundHalfEven (a / pow2 (e - 52))) * pow2 (e - 52)"
    using pow2_pos [of "e - 52"] by simp
  then show ?thesis
    by (simp add: flPos_def roundAt_def finOrInf_def e_def [symmetric])
qed

lemma flPos_grid:
  assumes "flPos a = Fin x"
  shows "\<exists>m. x = of_int m * pow2 (- 1074)"
proof -
  define e where "e = max (ilog2 a) (- 1022)"
  define n where "n = roundHalfEven (a / pow2 (e - 52))"
  from assms have x: "x = of_int n * pow2 (e - 52)"
    by (simp add: flPos_def roundAt_def finOrInf_def e_def [symmetric] n_def [symmetric]
        split: if_splits)
  have "0 \<le> e + 1022" by (simp add: e_def)
  have "pow2 (e - 52) = pow2 ((e + 1022) + (- 1074))" by simp
  also have "\<dots> = pow2 (e + 1022) * pow2 (- 1074)" by (rule pow2_add)
  also have "pow2 (e + 1022) = of_int (2 ^ nat (e + 1022))"
    using \<open>0 \<le> e + 1022\<close> by (rule pow2_nat)
  finally have "x = of_int (n * 2 ^ nat (e + 1022)) * pow2 (- 1074)"
    using x by simp
  then show ?thesis by blast
qed

lemma isDouble_grid:
  assumes "isDouble x"
  shows "\<exists>m. x = of_int m * pow2 (- 1074)"
proof -
  consider "x = 0" | "0 < x" | "x < 0" by linarith
  then show ?thesis
  proof cases
    case 1
    then have "x = of_int 0 * pow2 (- 1074)" by simp
    then show ?thesis by blast
  next
    case 2
    with assms have "flPos x = Fin x" by (simp add: isDouble_def fl_def)
    then show ?thesis by (rule flPos_grid)
  next
    case 3
    with assms have "js_neg (flPos (- x)) = Fin x" by (simp add: isDouble_def fl_def)
    then have "flPos (- x) = Fin (- x)" by (cases "flPos (- x)") auto
    from flPos_grid [OF this] obtain m where "- x = of_int m * pow2 (- 1074)" by blast
    then have "x = of_int (- m) * pow2 (- 1074)" by simp
    then show ?thesis by blast
  qed
qed

lemma js_sub_sign:
  assumes "isDouble a" and "isDouble b"
  shows "js_lt (Fin 0) (js_sub (Fin a) (Fin b)) \<longleftrightarrow> b < a"
proof -
  from isDouble_grid [OF assms(1)] isDouble_grid [OF assms(2)]
  obtain m n where "a = of_int m * pow2 (- 1074)" "b = of_int n * pow2 (- 1074)" by blast
  then have d: "a - b = of_int (m - n) * pow2 (- 1074)"
    and d': "b - a = of_int (n - m) * pow2 (- 1074)"
    by (simp_all add: algebra_simps)
  consider "a = b" | "b < a" | "a < b" by linarith
  then show ?thesis
  proof cases
    case 1
    then show ?thesis by (simp add: fl_def)
  next
    case 2
    then have "0 < a - b" by simp
    from flPos_positive [OF this d] 2 show ?thesis by (simp add: fl_def)
  next
    case 3
    then have "0 < b - a" by simp
    from flPos_positive [OF this d'] have "js_lt (Fin 0) (flPos (b - a))" .
    then have "\<not> js_lt (Fin 0) (js_neg (flPos (b - a)))"
      by (cases "flPos (b - a)") auto
    with 3 show ?thesis by (simp add: fl_def)
  qed
qed

section \<open>The comparator of \<open>sortByColumn\<close>\<close>

lemma ToNumber_numeric: "isNumeric v \<Longrightarrow> ToNumber h v = Fin (numVal v) \<and> isDouble (numVal v)"
proof (induction v rule: isNumeric.induct)
  case (3 b)
  have "isDouble 0" and "isDouble 1"
    by (simp_all add: isDouble_def num_eval)
  then show ?case by simp
next
  case 2
  have "isDouble 0" by (simp add: isDouble_def num_eval)
  then show ?case by simp
qed simp_all

lemma isNumeric_not_string: "isNumeric v \<Longrightarrow> (case v of JStr s \<Rightarrow> P s | _ \<Rightarrow> Q) = Q"
  by (cases v) auto

lemma sortByColumn_numeric:
  assumes "isNumeric (a f)" and "isNumeric (b f)"
  shows "sortByColumn h f ''asc'' a b = Inr (js_sub (Fin (numVal (a f))) (Fin (numVal (b f))))"
    and "sortByColumn h f ''desc'' a b = Inr (js_sub (Fin (numVal (b f))) (Fin (numVal (a f))))"
    and "comesAfter (sortByColumn h f ''asc'') a b \<longleftrightarrow> numVal (b f) < numVal (a f)"
    and "comesAfter (sortByColumn h f ''desc'') a b \<longleftrightarrow> numVal (a f) < numVal (b f)"
proof -
  from assms(1) have na: "\<And>P Q. (case a f of JStr s \<Rightarrow> P s | _ \<Rightarrow> Q) = Q"
    by (cases "a f") auto
  note ta = ToNumber_numeric [OF assms(1), of h] and tb = ToNumber_numeric [OF assms(2), of h]
  show asc: "sortByColumn h f ''asc'' a b = Inr (js_sub (Fin (numVal (a f))) (Fin (numVal (b f))))"
    unfolding sortByColumn_def using assms(1) ta tb by (cases "a f") auto
  show desc: "sortByColumn h f ''desc'' a b = Inr (js_sub (Fin (numVal (b f))) (Fin (numVal (a f))))"
    unfolding sortByColumn_def using assms(1) ta tb by (cases "a f") auto
  show "comesAfter (sortByColumn h f ''asc'') a b \<longleftrightarrow> numVal (b f) < numVal (a f)"
    using ta tb by (simp add: comesAfter_def asc js_sub_sign del: js_sub.simps)
  show "comesAfter (sortByColumn h f ''desc'') a b \<longleftrightarrow> numVal (a f) < numVal (b f)"
    using ta tb by (simp add: comesAfter_def desc js_sub_sign del: js_sub.simps)
qed

lemma sortByColumn_string:
  assumes "a f = JStr s" and "b f = JStr t"
  shows "sortByColumn h f ''asc'' a b = Inr (Fin (of_int (localeCompare h s t)))"
    and "sortByColumn h f ''desc'' a b = Inr (Fin (of_int (localeCompare h t s)))"
  using assms by (simp_all add: sortByColumn_def)

lemma sortByColumn_flip:
  assumes "numericField f D \<or> stringField f D" and "a \<in> set D" and "b \<in> set D"
  shows "sortByColumn h f ''desc'' a b = sortByColumn h f ''asc'' b a"
  using assms(1)
proof
  assume "numericField f D"
  with assms(2,3) have "isNumeric (a f)" "isNumeric (b f)"
    by (auto simp: numericField_def list_all_iff)
  then show ?thesis by (simp add: sortByColumn_numeric)
next
  assume "stringField f D"
  with assms(2,3) have "isString (a f)" "isString (b f)"
    by (auto simp: stringField_def list_all_iff)
  then obtain s t where "a f = JStr s" "b f = JStr t"
    by (cases "a f"; cases "b f") auto
  then show ?thesis by (simp add: sortByColumn_string)
qed

lemma neverThrows_asc:
  "neverThrows (sortByColumn h f ''asc'') A"
  by (auto simp: neverThrows_def sortByColumn_def split: jsval.splits)

lemma neverThrows_typed:
  assumes "numericField f D \<or> stringField f D"
  shows "neverThrows (sortByColumn h f ''desc'') (set D)"
  using neverThrows_asc [of h f "set D"] sortByColumn_flip [OF assms]
  unfolding neverThrows_def by metis

lemma consistentOn_numeric:
  assumes "numericField f D"
  shows "consistentOn (sortByColumn h f ''asc'') (set D)"
proof -
  have "isNumeric (c f)" if "c \<in> set D" for c
    using assms that by (auto simp: numericField_def list_all_iff)
  then show ?thesis
    unfolding consistentOn_def by (auto simp: sortByColumn_numeric)
qed

lemma consistentOn_flip:
  assumes "consistentOn cmp A" and "\<And>a b. a \<in> A \<Longrightarrow> b \<in> A \<Longrightarrow> cmp' a b = cmp b a"
  shows "consistentOn cmp' A"
proof -
  have ca: "comesAfter cmp' a b = comesAfter cmp b a" if "a \<in> A" "b \<in> A" for a b
    using assms(2) [OF that] by (simp add: comesAfter_def)
  show ?thesis
    unfolding consistentOn_def
  proof (intro conjI ballI impI)
    fix a b assume "a \<in> A" "b \<in> A" "comesAfter cmp' a b"
    with assms(1) ca show "\<not> comesAfter cmp' b a"
      unfolding consistentOn_def by metis
  next
    fix a b c assume "a \<in> A" "b \<in> A" "c \<in> A"
      and "\<not> comesAfter cmp' a b \<and> \<not> comesAfter cmp' b c"
    with assms(1) ca show "\<not> comesAfter cmp' a c"
      unfolding consistentOn_def by metis
  qed
qed

lemma noTies_set:
  assumes "noTies cmp D" and "a \<in> set D" and "b \<in> set D" and "a \<noteq> b"
  shows "\<not> tie cmp a b"
  using assms
proof (induction D)
  case Nil
  then show ?case by simp
next
  case (Cons x xs)
  have sym: "tie cmp u v = tie cmp v u" for u v by (auto simp: tie_def)
  from Cons.prems(1) have all: "\<And>y. y \<in> set xs \<Longrightarrow> \<not> tie cmp x y" and rest: "noTies cmp xs"
    by (auto simp: list_all_iff)
  show ?case
  proof (cases "a = x")
    case True
    with Cons.prems have "b \<in> set xs" by auto
    with all True show ?thesis by simp
  next
    case False
    with Cons.prems have a: "a \<in> set xs" by auto
    show ?thesis
    proof (cases "b = x")
      case True
      with all [OF a] sym show ?thesis by simp
    next
      case False
      with Cons.prems have "b \<in> set xs" by auto
      with Cons.IH rest a Cons.prems(4) show ?thesis by simp
    qed
  qed
qed

section \<open>The search filter\<close>

lemma js_includes_sublist: "js_includes s t \<longleftrightarrow> sublist t s"
  by (induction s) (auto simp: sublist_Cons_right)

lemma letterPairs_codes:
  "letterPairs = map (\<lambda>n. (char_of n, char_of (n + 32)))
                   ([65 ..< 91] @ [192 ..< 215] @ [216 ..< 223 :: nat])"
  by (simp add: letterPairs_def char_of_def bit_0 upt_rec_numeral)

lemma of_char_less: "(of_char c :: nat) < 256"
proof -
  have "(of_char c :: nat) mod 256 = of_char c" by (rule of_char_mod_256)
  then show ?thesis by (metis mod_less_divisor zero_less_numeral)
qed

lemma char_of_eq_code: "n < 256 \<Longrightarrow> c = char_of n \<longleftrightarrow> (of_char c :: nat) = n"
proof
  assume "n < 256" and "c = char_of n"
  then show "(of_char c :: nat) = n" by simp
next
  assume "(of_char c :: nat) = n"
  then have "char_of (of_char c :: nat) = char_of n" by (rule arg_cong)
  then show "c = char_of n" by (simp only: char_of_char)
qed

lemma capital_codes:
  "set ([65 ..< 91] @ [192 ..< 215] @ [216 ..< 223 :: nat]) = {n. capitalCode n}"
proof -
  have "set ([65 ..< 91] @ [192 ..< 215] @ [216 ..< 223 :: nat])
      = {65 ..< 91} \<union> {192 ..< 215} \<union> {216 ..< 223}"
    by (simp only: set_append set_upt Un_assoc)
  also have "\<dots> = {n. capitalCode n}"
    by (auto simp: capitalCode_def)
  finally show ?thesis .
qed

lemma letterPairs_iff:
  "(a, b) \<in> set letterPairs \<longleftrightarrow>
     capitalCode (of_char a) \<and> (of_char b :: nat) = of_char a + 32"
proof -
  have "(a, b) \<in> set letterPairs \<longleftrightarrow>
      (\<exists>n :: nat. capitalCode n \<and> a = char_of n \<and> b = char_of (n + 32))"
    unfolding letterPairs_codes set_map capital_codes by blast
  also have "\<dots> \<longleftrightarrow> capitalCode (of_char a) \<and> (of_char b :: nat) = of_char a + 32"
  proof
    assume "\<exists>n :: nat. capitalCode n \<and> a = char_of n \<and> b = char_of (n + 32)"
    then obtain n :: nat where n: "capitalCode n" and a: "a = char_of n"
      and b: "b = char_of (n + 32)" by blast
    from n have "n < 256" "n + 32 < 256" by (auto simp: capitalCode_def)
    with a b have "(of_char a :: nat) = n" "(of_char b :: nat) = n + 32"
      by (simp_all only: char_of_eq_code)
    with n show "capitalCode (of_char a) \<and> (of_char b :: nat) = of_char a + 32" by simp
  next
    assume r: "capitalCode (of_char a) \<and> (of_char b :: nat) = of_char a + 32"
    then have "(of_char a :: nat) + 32 < 256" by (auto simp: capitalCode_def)
    with r have "b = char_of ((of_char a :: nat) + 32)" by (simp only: char_of_eq_code)
    moreover have "a = char_of (of_char a :: nat)" by simp
    ultimately show "\<exists>n :: nat. capitalCode n \<and> a = char_of n \<and> b = char_of (n + 32)"
      using r by blast
  qed
  finally show ?thesis .
qed

lemma of_char_lowerChar:
  "(of_char (lowerChar c) :: nat) = (if capitalCode (of_char c) then of_char c + 32 else of_char c)"
proof (cases "capitalCode (of_char c)")
  case True
  then have "(of_char c :: nat) + 32 < 256" by (auto simp: capitalCode_def)
  with True show ?thesis by (auto simp: lowerChar_def capitalCode_def)
next
  case False
  then show ?thesis by (auto simp: lowerChar_def capitalCode_def)
qed

lemma lowerChar_sameLetter: "lowerChar a = lowerChar b \<longleftrightarrow> sameLetter a b"
proof -
  have "lowerChar a = lowerChar b \<longleftrightarrow>
      (of_char (lowerChar a) :: nat) = of_char (lowerChar b)" by simp
  also have "\<dots> \<longleftrightarrow> ((of_char a :: nat) = of_char b
      \<or> (capitalCode (of_char a) \<and> (of_char b :: nat) = of_char a + 32)
      \<or> (capitalCode (of_char b) \<and> (of_char a :: nat) = of_char b + 32))"
    unfolding of_char_lowerChar by (auto simp: capitalCode_def)
  also have "\<dots> \<longleftrightarrow> sameLetter a b"
    by (simp add: sameLetter_def letterPairs_iff)
  finally show ?thesis .
qed

lemma prefix_startsWithCI:
  "prefix (toLowerCase t) (toLowerCase s) \<longleftrightarrow> startsWithCI s t"
proof (induction s t rule: startsWithCI.induct)
  case (3 a s b t)
  then show ?case
    by (auto simp: toLowerCase_def lowerChar_sameLetter [symmetric])
qed (simp_all add: toLowerCase_def)

lemma js_includes_occursCI:
  "js_includes (toLowerCase s) (toLowerCase t) \<longleftrightarrow> occursCI s t"
proof (induction s)
  case Nil
  then show ?case by (simp add: toLowerCase_def)
next
  case (Cons a s)
  have "js_includes (toLowerCase (a # s)) (toLowerCase t) \<longleftrightarrow>
      prefix (toLowerCase t) (toLowerCase (a # s)) \<or> js_includes (toLowerCase s) (toLowerCase t)"
    by (simp add: toLowerCase_def)
  with Cons show ?case by (simp add: prefix_startsWithCI)
qed

lemma startsWithCI_iff:
  "startsWithCI s t \<longleftrightarrow> (\<exists>u ss. s = u @ ss \<and> list_all2 sameLetter u t)"
proof (induction s t rule: startsWithCI.induct)
  case (1 s)
  then show ?case by simp
next
  case (2 b t)
  then show ?case by simp
next
  case (3 a s b t)
  show ?case
  proof
    assume "startsWithCI (a # s) (b # t)"
    with 3 obtain u ss where "sameLetter a b" "s = u @ ss" "list_all2 sameLetter u t" by auto
    then have "a # s = (a # u) @ ss \<and> list_all2 sameLetter (a # u) (b # t)" by simp
    then show "\<exists>u ss. a # s = u @ ss \<and> list_all2 sameLetter u (b # t)" by blast
  next
    assume "\<exists>u ss. a # s = u @ ss \<and> list_all2 sameLetter u (b # t)"
    then obtain u ss where u: "a # s = u @ ss" "list_all2 sameLetter u (b # t)" by blast
    from u(2) obtain a' u' where "u = a' # u'" "sameLetter a' b" "list_all2 sameLetter u' t"
      by (auto simp: list_all2_Cons2)
    with u(1) 3 show "startsWithCI (a # s) (b # t)" by auto
  qed
qed

lemma occursCI_iff:
  "occursCI s t \<longleftrightarrow> (\<exists>ps u ss. s = ps @ u @ ss \<and> list_all2 sameLetter u t)"
proof (induction s)
  case Nil
  then show ?case by auto
next
  case (Cons a s)
  show ?case
  proof
    assume "occursCI (a # s) t"
    then consider "startsWithCI (a # s) t" | "occursCI s t" by auto
    then show "\<exists>ps u ss. a # s = ps @ u @ ss \<and> list_all2 sameLetter u t"
    proof cases
      case 1
      then obtain u ss where "a # s = [] @ u @ ss \<and> list_all2 sameLetter u t"
        by (auto simp: startsWithCI_iff)
      then show ?thesis by blast
    next
      case 2
      with Cons obtain ps u ss where "s = ps @ u @ ss" "list_all2 sameLetter u t" by blast
      then have "a # s = (a # ps) @ u @ ss \<and> list_all2 sameLetter u t" by simp
      then show ?thesis by blast
    qed
  next
    assume "\<exists>ps u ss. a # s = ps @ u @ ss \<and> list_all2 sameLetter u t"
    then obtain ps u ss where e: "a # s = ps @ u @ ss" and l: "list_all2 sameLetter u t"
      by blast
    show "occursCI (a # s) t"
    proof (cases ps)
      case Nil
      with e l have "startsWithCI (a # s) t" by (auto simp: startsWithCI_iff)
      then show ?thesis by simp
    next
      case (Cons p ps')
      with e have "s = ps' @ u @ ss" by simp
      with l Cons.IH have "occursCI s t" by blast
      then show ?thesis by simp
    qed
  qed
qed

lemma filterBySearch_matches:
  assumes "wellNamed c"
  shows "filterBySearch search c = Inr (matchesSearch search c)"
proof -
  from assms obtain n y where "c ''name'' = JStr n" "c ''symbol'' = JStr y"
    unfolding wellNamed_def by (cases "c ''name''"; cases "c ''symbol''") auto
  then show ?thesis
    by (simp add: filterBySearch_def matchesSearch_def js_includes_occursCI)
qed

lemma js_filter_pure:
  assumes "\<And>x. x \<in> set xs \<Longrightarrow> p x = Inr (q x)"
  shows "js_filter p xs = Inr (filter q xs)"
  using assms by (induction xs) simp_all

lemma js_filter_matches:
  assumes "list_all wellNamed xs"
  shows "js_filter (filterBySearch search) xs = Inr (filter (matchesSearch search) xs)"
  using assms by (intro js_filter_pure filterBySearch_matches) (simp add: list_all_iff)

lemma filterBySearch_empty:
  assumes "isString (c ''name'')"
  shows "filterBySearch [] c = Inr True"
proof -
  from assms obtain n where "c ''name'' = JStr n" by (cases "c ''name''") auto
  then show ?thesis by (simp add: filterBySearch_def toLowerCase_def js_includes_sublist)
qed

lemma js_filter_empty_search:
  assumes "list_all (\<lambda>c. isString (c ''name'')) xs"
  shows "js_filter (filterBySearch []) xs = Inr xs"
proof -
  have "js_filter (filterBySearch []) xs = Inr (filter (\<lambda>c. True) xs)"
    using assms by (intro js_filter_pure filterBySearch_empty) (simp add: list_all_iff)
  then show ?thesis by simp
qed

section \<open>The rows of a render\<close>

lemma renderRows_rows:
  "renderRows h data s = (Normal, s') \<Longrightarrow>
     \<exists>rows. tbody s' = tbody s @ rows
       \<and> list_all2 (\<lambda>c r. renderRow h (dataCurrency s) c = Inr r) data rows"
proof (induction data arbitrary: s)
  case Nil
  then show ?case by simp
next
  case (Cons c data)
  from Cons.prems obtain r where r: "renderRow h (dataCurrency s) c = Inr r"
    and rest: "renderRows h data (s\<lparr>tbody := tbody s @ [r]\<rparr>) = (Normal, s')"
    by (auto split: sum.splits)
  from Cons.IH [OF rest] obtain rows where "tbody s' = (tbody s @ [r]) @ rows"
    and "list_all2 (\<lambda>c r. renderRow h (dataCurrency s) c = Inr r) data rows"
    by auto
  with r have "tbody s' = tbody s @ (r # rows)
      \<and> list_all2 (\<lambda>c r. renderRow h (dataCurrency s) c = Inr r) (c # data) (r # rows)"
    by simp
  then show ?case by blast
qed

lemma formatCurrency_succeeds:
  assumes "wellFormedCurrency cur" and "v \<noteq> JNull" and "v \<noteq> JUndefined"
  shows "\<exists>t. formatCurrency h v cur d = Inr t"
  using assms by (cases v) (simp_all add: formatCurrency_def)

lemma renderRow_succeeds:
  assumes "wellFormedCurrency cur" and "hasAmounts c"
  shows "\<exists>r. renderRow h cur c = Inr r
    \<and> change1h r = percentCell h (c ''price_change_percentage_1h_in_currency'')
    \<and> change24h r = percentCell h (c ''price_change_percentage_24h_in_currency'')
    \<and> change7d r = percentCell h (c ''price_change_percentage_7d_in_currency'')"
proof -
  from assms(2) have a: "c ''current_price'' \<noteq> JNull" "c ''current_price'' \<noteq> JUndefined"
    "c ''total_volume'' \<noteq> JNull" "c ''total_volume'' \<noteq> JUndefined"
    "c ''market_cap'' \<noteq> JNull" "c ''market_cap'' \<noteq> JUndefined"
    by (simp_all add: hasAmounts_def)
  from formatCurrency_succeeds [OF assms(1) a(1,2)] obtain p
    where p: "formatCurrency h (c ''current_price'') cur True = Inr p" by blast
  from formatCurrency_succeeds [OF assms(1) a(3,4)] obtain v
    where v: "formatCurrency h (c ''total_volume'') cur False = Inr v" by blast
  from formatCurrency_succeeds [OF assms(1) a(5,6)] obtain m
    where m: "formatCurrency h (c ''market_cap'') cur False = Inr m" by blast
  from p v m show ?thesis by (simp add: renderRow_def)
qed

lemma renderRows_all:
  assumes "list_all (\<lambda>c. \<exists>r. renderRow h (dataCurrency s) c = Inr r \<and> P c r) data"
  shows "\<exists>rows. renderRows h data s = (Normal, s\<lparr>tbody := tbody s @ rows\<rparr>)
           \<and> list_all2 (\<lambda>c r. renderRow h (dataCurrency s) c = Inr r \<and> P c r) data rows"
  using assms
proof (induction data arbitrary: s)
  case Nil
  then show ?case by simp
next
  case (Cons c data)
  from Cons.prems obtain r where r: "renderRow h (dataCurrency s) c = Inr r" "P c r"
    by auto
  let ?s = "s\<lparr>tbody := tbody s @ [r]\<rparr>"
  from Cons.prems
  have "list_all (\<lambda>c. \<exists>r. renderRow h (dataCurrency ?s) c = Inr r \<and> P c r) data" by simp
  from Cons.IH [OF this] obtain rows
    where rows: "renderRows h data ?s = (Normal, ?s\<lparr>tbody := tbody ?s @ rows\<rparr>)"
      and all: "list_all2 (\<lambda>c r. renderRow h (dataCurrency s) c = Inr r \<and> P c r) data rows"
    by auto
  from r rows have "renderRows h (c # data) s = (Normal, s\<lparr>tbody := tbody s @ (r # rows)\<rparr>)"
    by simp
  moreover from r all
  have "list_all2 (\<lambda>c r. renderRow h (dataCurrency s) c = Inr r \<and> P c r) (c # data) (r # rows)"
    by simp
  ultimately show ?case by blast
qed

lemma renderRow_texts:
  "renderRow h cur c = Inr r \<Longrightarrow>
     nameText r = ToString (c ''name'') \<and> symbolText r = ToString (c ''symbol'')"
  by (auto simp: renderRow_def split: sum.splits)

lemma renderTable_derived:
  assumes S: "js_sort (sortByColumn h (dataSortBy s) (dataSort s)) (arrays s a) = Inr S"
    and F: "js_filter (filterBySearch (dataSearch s)) S = Inr derived"
  shows "renderTable h a s =
      (case renderRows h derived (clearRows (s\<lparr>arrays := (arrays s)(a := S)\<rparr>)) of
         (Throw e, s') \<Rightarrow> (Throw e, s')
       | (Normal, s') \<Rightarrow> (Normal, updateHeader s'))"
    and "fst (renderTable h a s) = Normal \<Longrightarrow>
      list_all2 (\<lambda>c r. renderRow h (dataCurrency s) c = Inr r) derived
        (tbody (snd (renderTable h a s)))"
proof -
  show eq: "renderTable h a s =
      (case renderRows h derived (clearRows (s\<lparr>arrays := (arrays s)(a := S)\<rparr>)) of
         (Throw e, s') \<Rightarrow> (Throw e, s')
       | (Normal, s') \<Rightarrow> (Normal, updateHeader s'))"
    using S F by (simp add: renderTable_def)
  assume n: "fst (renderTable h a s) = Normal"
  obtain c1 s1 where rr: "renderRows h derived
      (clearRows (s\<lparr>arrays := (arrays s)(a := S)\<rparr>)) = (c1, s1)"
    by (cases "renderRows h derived (clearRows (s\<lparr>arrays := (arrays s)(a := S)\<rparr>))")
  with n eq have c1: "c1 = Normal" by (cases c1) simp_all
  with rr eq have res: "snd (renderTable h a s) = updateHeader s1" by simp
  from renderRows_rows [OF rr [unfolded c1]]
  have "list_all2 (\<lambda>c r. renderRow h (dataCurrency s) c = Inr r) derived (tbody s1)"
    by (simp add: clearRows_def)
  with res show "list_all2 (\<lambda>c r. renderRow h (dataCurrency s) c = Inr r) derived
        (tbody (snd (renderTable h a s)))"
    by (simp add: updateHeader_def)
qed

section \<open>The derived dataset\<close>

lemma set_js_sort: "js_sort cmp xs = Inr zs \<Longrightarrow> set zs = set xs"
  using js_sort_mset [of cmp xs zs] by (metis set_mset_mset)

text \<open>
  C6.  On a dataset whose field \<open>f\<close> is numeric in every record, or a string in every
  record under a consistent collation, and on which no two records tie, the ascending
  sequence is the exact reverse of the descending one.
\<close>

theorem sort_directions_reverse:
  assumes typed: "numericField f D
      \<or> (stringField f D \<and> consistentOn (sortByColumn h f ''asc'') (set D))"
    and ties: "noTies (sortByColumn h f ''asc'') D"
    and names: "list_all (\<lambda>c. isString (c ''name'')) D"
  shows "\<exists>ys. computeDerived h D f ''asc'' [] = Inr ys
            \<and> computeDerived h D f ''desc'' [] = Inr (rev ys)"
proof -
  let ?asc = "sortByColumn h f ''asc''" and ?desc = "sortByColumn h f ''desc''"
  from typed have ty: "numericField f D \<or> stringField f D" by blast
  from typed have consA: "consistentOn ?asc (set D)"
    using consistentOn_numeric by blast
  have flip: "?desc a b = ?asc b a" if "a \<in> set D" "b \<in> set D" for a b
    using sortByColumn_flip [OF ty that] .
  have consD: "consistentOn ?desc (set D)"
    by (rule consistentOn_flip [OF consA flip])
  from js_sort_total [OF neverThrows_asc] obtain ys where ys: "js_sort ?asc D = Inr ys"
    by blast
  from js_sort_total [OF neverThrows_typed [OF ty]] obtain zs where zs: "js_sort ?desc D = Inr zs"
    by blast
  note sety = set_js_sort [OF ys] and setz = set_js_sort [OF zs]
  have sy: "sorted_wrt (\<lambda>a b. \<not> comesAfter ?asc a b) ys"
    by (rule js_sort_sorted [OF consA ys])
  have "sorted_wrt (\<lambda>a b. \<not> comesAfter ?desc a b) zs"
    by (rule js_sort_sorted [OF consD zs])
  then have "sorted_wrt (\<lambda>a b. \<not> comesAfter ?asc b a) zs"
  proof (rule sorted_wrt_mono_rel [rotated])
    fix a b assume "a \<in> set zs" "b \<in> set zs" "\<not> comesAfter ?desc a b"
    with flip setz show "\<not> comesAfter ?asc b a" by (simp add: comesAfter_def)
  qed
  then have sz: "sorted_wrt (\<lambda>a b. \<not> comesAfter ?asc a b) (rev zs)"
    by (simp add: sorted_wrt_rev)
  have "ys = rev zs"
  proof (rule sorted_wrt_unique [OF sy sz])
    show "mset ys = mset (rev zs)"
      using js_sort_mset [OF ys] js_sort_mset [OF zs] by simp
  next
    fix a b assume "a \<in> set ys" "b \<in> set ys"
      and "\<not> comesAfter ?asc a b" "\<not> comesAfter ?asc b a"
    with noTies_set [OF ties, of a b] sety show "a = b"
      by (auto simp: tie_def)
  qed
  then have zs': "zs = rev ys" by simp
  from names sety have "list_all (\<lambda>c. isString (c ''name'')) ys"
    by (simp add: list_all_iff)
  then have fy: "js_filter (filterBySearch []) ys = Inr ys" by (rule js_filter_empty_search)
  from names setz have "list_all (\<lambda>c. isString (c ''name'')) zs"
    by (simp add: list_all_iff)
  then have fz: "js_filter (filterBySearch []) zs = Inr zs" by (rule js_filter_empty_search)
  from ys zs fy fz zs' show ?thesis by (simp add: computeDerived_def)
qed

text \<open>
  C3.  On records whose name and symbol are strings, and with a comparator that does not
  throw, the derived dataset is the dataset sorted by the comparator of the sort field and
  then filtered to the records whose name or symbol contains the search text, case put
  aside: somewhere in the name or the symbol the text stands letter for letter, a capital
  counting as its small letter.  The comparator is \<open>localeCompare\<close> on two strings
  and the numeric difference on two numbers, taken the other way round for a direction
  other than \<open>asc\<close>.  The sorted sequence is a rearrangement of the dataset, in
  comparator order when the comparator is consistent: a numeric field ends up in ascending
  order for \<open>asc\<close> and in descending order for \<open>desc\<close>.  The empty search text
  keeps every record, and the kept records stand in their sorted order.  This sequence is
  what \<open>renderTable\<close> draws: on a page holding the dataset and these settings it renders
  the rows of the derived records, one after the other, and a render that completes leaves
  exactly their rows in the table body.
\<close>

theorem computeDerived_sort_then_filter:
  assumes "neverThrows (sortByColumn h f dir) (set D)" and "list_all wellNamed D"
  shows "(\<exists>S. js_sort (sortByColumn h f dir) D = Inr S
            \<and> mset S = mset D
            \<and> (consistentOn (sortByColumn h f dir) (set D) \<longrightarrow>
                 sorted_wrt (\<lambda>a b. \<not> comesAfter (sortByColumn h f dir) a b) S)
            \<and> (numericField f D \<and> dir = ''asc'' \<longrightarrow>
                 sorted_wrt (\<lambda>a b. numVal (a f) \<le> numVal (b f)) S)
            \<and> (numericField f D \<and> dir = ''desc'' \<longrightarrow>
                 sorted_wrt (\<lambda>a b. numVal (b f) \<le> numVal (a f)) S)
            \<and> computeDerived h D f dir search = Inr (filter (matchesSearch search) S)
            \<and> (search = [] \<longrightarrow> computeDerived h D f dir search = Inr S)
            \<and> subseq (filter (matchesSearch search) S) S
            \<and> (\<forall>a s. arrays s a = D \<and> dataSortBy s = f \<and> dataSort s = dir
                    \<and> dataSearch s = search \<longrightarrow>
                  renderTable h a s =
                    (case renderRows h (filter (matchesSearch search) S)
                            (clearRows (s\<lparr>arrays := (arrays s)(a := S)\<rparr>)) of
                       (Throw e, s') \<Rightarrow> (Throw e, s')
                     | (Normal, s') \<Rightarrow> (Normal, updateHeader s'))
                  \<and> (fst (renderTable h a s) = Normal \<longrightarrow>
                       list_all2 (\<lambda>c r. renderRow h (dataCurrency s) c = Inr r)
                         (filter (matchesSearch search) S) (tbody (snd (renderTable h a s))))))
      \<and> (\<forall>c. matchesSearch search c \<longleftrightarrow>
            (\<exists>n ps u ss. (c ''name'' = JStr n \<or> c ''symbol'' = JStr n)
               \<and> n = ps @ u @ ss \<and> list_all2 sameLetter u search))
      \<and> (\<forall>a b s t. a f = JStr s \<and> b f = JStr t \<longrightarrow>
            sortByColumn h f ''asc'' a b = Inr (Fin (of_int (localeCompare h s t)))
            \<and> sortByColumn h f ''desc'' a b = Inr (Fin (of_int (localeCompare h t s))))
      \<and> (\<forall>a b x y. a f = JNum x \<and> b f = JNum y \<longrightarrow>
            sortByColumn h f ''asc'' a b = Inr (js_sub x y)
            \<and> sortByColumn h f ''desc'' a b = Inr (js_sub y x))"
proof -
  let ?cmp = "sortByColumn h f dir"
  from js_sort_total [OF assms(1)] obtain S where S: "js_sort ?cmp D = Inr S" by blast
  note setS = set_js_sort [OF S]
  from assms(2) setS have wn: "list_all wellNamed S" by (simp add: list_all_iff)
  note filtered = js_filter_matches [OF wn, of search]
  have derived: "computeDerived h D f dir search = Inr (filter (matchesSearch search) S)"
    using S filtered by (simp add: computeDerived_def)
  have numeric: "isNumeric (c f)" if "numericField f D" "c \<in> set S" for c
    using that setS by (auto simp: numericField_def list_all_iff)
  have sorted: "sorted_wrt (\<lambda>a b. \<not> comesAfter ?cmp a b) S" if "consistentOn ?cmp (set D)"
    by (rule js_sort_sorted [OF that S])
  have up: "sorted_wrt (\<lambda>a b. numVal (a f) \<le> numVal (b f)) S"
    if nf: "numericField f D" and dir: "dir = ''asc''"
  proof -
    from consistentOn_numeric [OF nf] dir have "consistentOn ?cmp (set D)" by simp
    from sorted [OF this] show ?thesis
    proof (rule sorted_wrt_mono_rel [rotated])
      fix a b assume "a \<in> set S" "b \<in> set S" "\<not> comesAfter ?cmp a b"
      with numeric [OF nf] dir show "numVal (a f) \<le> numVal (b f)"
        by (simp add: sortByColumn_numeric)
    qed
  qed
  have down: "sorted_wrt (\<lambda>a b. numVal (b f) \<le> numVal (a f)) S"
    if nf: "numericField f D" and dir: "dir = ''desc''"
  proof -
    have "consistentOn (sortByColumn h f ''desc'') (set D)"
      by (rule consistentOn_flip [OF consistentOn_numeric [OF nf]])
        (rule sortByColumn_flip, use nf in simp_all)
    with dir have "consistentOn ?cmp (set D)" by simp
    from sorted [OF this] show ?thesis
    proof (rule sorted_wrt_mono_rel [rotated])
      fix a b assume "a \<in> set S" "b \<in> set S" "\<not> comesAfter ?cmp a b"
      with numeric [OF nf] dir show "numVal (b f) \<le> numVal (a f)"
        by (simp add: sortByColumn_numeric)
    qed
  qed
  have empty: "computeDerived h D f dir search = Inr S" if "search = []"
  proof -
    from wn have "list_all (\<lambda>c. isString (c ''name'')) S"
      by (simp add: list_all_iff wellNamed_def)
    from js_filter_empty_search [OF this] S that show ?thesis
      by (simp add: computeDerived_def)
  qed
  have page: "renderTable h a s =
        (case renderRows h (filter (matchesSearch search) S)
                (clearRows (s\<lparr>arrays := (arrays s)(a := S)\<rparr>)) of
           (Throw e, s') \<Rightarrow> (Throw e, s')
         | (Normal, s') \<Rightarrow> (Normal, updateHeader s'))
      \<and> (fst (renderTable h a s) = Normal \<longrightarrow>
           list_all2 (\<lambda>c r. renderRow h (dataCurrency s) c = Inr r)
             (filter (matchesSearch search) S) (tbody (snd (renderTable h a s))))"
    if "arrays s a = D \<and> dataSortBy s = f \<and> dataSort s = dir \<and> dataSearch s = search"
    for a s
  proof -
    from that S have S': "js_sort (sortByColumn h (dataSortBy s) (dataSort s)) (arrays s a) = Inr S"
      by simp
    from that filtered
    have F': "js_filter (filterBySearch (dataSearch s)) S = Inr (filter (matchesSearch search) S)"
      by simp
    note rd = renderTable_derived [OF S' F']
    show ?thesis
    proof (intro conjI impI)
      show "renderTable h a s =
        (case renderRows h (filter (matchesSearch search) S)
                (clearRows (s\<lparr>arrays := (arrays s)(a := S)\<rparr>)) of
           (Throw e, s') \<Rightarrow> (Throw e, s')
         | (Normal, s') \<Rightarrow> (Normal, updateHeader s'))"
        by (rule rd(1))
      assume "fst (renderTable h a s) = Normal"
      then show "list_all2 (\<lambda>c r. renderRow h (dataCurrency s) c = Inr r)
             (filter (matchesSearch search) S) (tbody (snd (renderTable h a s)))"
        by (rule rd(2))
    qed
  qed
  have first: "\<exists>S. js_sort ?cmp D = Inr S
            \<and> mset S = mset D
            \<and> (consistentOn ?cmp (set D) \<longrightarrow> sorted_wrt (\<lambda>a b. \<not> comesAfter ?cmp a b) S)
            \<and> (numericField f D \<and> dir = ''asc'' \<longrightarrow>
                 sorted_wrt (\<lambda>a b. numVal (a f) \<le> numVal (b f)) S)
            \<and> (numericField f D \<and> dir = ''desc'' \<longrightarrow>
                 sorted_wrt (\<lambda>a b. numVal (b f) \<le> numVal (a f)) S)
            \<and> computeDerived h D f dir search = Inr (filter (matchesSearch search) S)
            \<and> (search = [] \<longrightarrow> computeDerived h D f dir search = Inr S)
            \<and> subseq (filter (matchesSearch search) S) S
            \<and> (\<forall>a s. arrays s a = D \<and> dataSortBy s = f \<and> dataSort s = dir
                    \<and> dataSearch s = search \<longrightarrow>
                  renderTable h a s =
                    (case renderRows h (filter (matchesSearch search) S)
                            (clearRows (s\<lparr>arrays := (arrays s)(a := S)\<rparr>)) of
                       (Throw e, s') \<Rightarrow> (Throw e, s')
                     | (Normal, s') \<Rightarrow> (Normal, updateHeader s'))
                  \<and> (fst (renderTable h a s) = Normal \<longrightarrow>
                       list_all2 (\<lambda>c r. renderRow h (dataCurrency s) c = Inr r)
                         (filter (matchesSearch search) S) (tbody (snd (renderTable h a s)))))"
  proof (intro exI [of _ S] conjI)
    show "js_sort ?cmp D = Inr S" by (rule S)
    show "mset S = mset D" by (rule js_sort_mset [OF S])
    show "consistentOn ?cmp (set D) \<longrightarrow> sorted_wrt (\<lambda>a b. \<not> comesAfter ?cmp a b) S"
      using sorted by blast
    show "numericField f D \<and> dir = ''asc'' \<longrightarrow>
        sorted_wrt (\<lambda>a b. numVal (a f) \<le> numVal (b f)) S"
      using up by blast
    show "numericField f D \<and> dir = ''desc'' \<longrightarrow>
        sorted_wrt (\<lambda>a b. numVal (b f) \<le> numVal (a f)) S"
      using down by blast
    show "computeDerived h D f dir search = Inr (filter (matchesSearch search) S)"
      by (rule derived)
    show "search = [] \<longrightarrow> computeDerived h D f dir search = Inr S"
      using empty by blast
    show "subseq (filter (matchesSearch search) S) S" by simp
    show "\<forall>a s. arrays s a = D \<and> dataSortBy s = f \<and> dataSort s = dir
            \<and> dataSearch s = search \<longrightarrow>
          renderTable h a s =
            (case renderRows h (filter (matchesSearch search) S)
                    (clearRows (s\<lparr>arrays := (arrays s)(a := S)\<rparr>)) of
               (Throw e, s') \<Rightarrow> (Throw e, s')
             | (Normal, s') \<Rightarrow> (Normal, updateHeader s'))
          \<and> (fst (renderTable h a s) = Normal \<longrightarrow>
               list_all2 (\<lambda>c r. renderRow h (dataCurrency s) c = Inr r)
                 (filter (matchesSearch search) S) (tbody (snd (renderTable h a s))))"
      by (intro allI impI) (rule page)
  qed
  have letters: "\<forall>c. matchesSearch search c \<longleftrightarrow>
      (\<exists>n ps u ss. (c ''name'' = JStr n \<or> c ''symbol'' = JStr n)
         \<and> n = ps @ u @ ss \<and> list_all2 sameLetter u search)"
  proof
    fix c
    have "containsCI v search \<longleftrightarrow>
        (\<exists>n ps u ss. v = JStr n \<and> n = ps @ u @ ss \<and> list_all2 sameLetter u search)" for v
      by (cases v) (simp_all add: occursCI_iff)
    then show "matchesSearch search c \<longleftrightarrow>
      (\<exists>n ps u ss. (c ''name'' = JStr n \<or> c ''symbol'' = JStr n)
         \<and> n = ps @ u @ ss \<and> list_all2 sameLetter u search)"
      unfolding matchesSearch_def by blast
  qed
  have strings: "\<forall>a b s t. a f = JStr s \<and> b f = JStr t \<longrightarrow>
      sortByColumn h f ''asc'' a b = Inr (Fin (of_int (localeCompare h s t)))
      \<and> sortByColumn h f ''desc'' a b = Inr (Fin (of_int (localeCompare h t s)))"
    by (simp add: sortByColumn_string)
  have numbers: "\<forall>a b x y. a f = JNum x \<and> b f = JNum y \<longrightarrow>
      sortByColumn h f ''asc'' a b = Inr (js_sub x y)
      \<and> sortByColumn h f ''desc'' a b = Inr (js_sub y x)"
    by (simp add: sortByColumn_def)
  show ?thesis
    by (rule conjI [OF first conjI [OF letters conjI [OF strings numbers]]])
qed

section \<open>The scenario of the specification\<close>

lemma mkCoin_fields:
  "mkCoin r n y p ch ''market_cap_rank'' = JNum (Fin r)"
  "mkCoin r n y p ch ''image'' = JStr (''/'' @ y @ ''.png'')"
  "mkCoin r n y p ch ''name'' = JStr n"
  "mkCoin r n y p ch ''symbol'' = JStr y"
  "mkCoin r n y p ch ''current_price'' = JNum p"
  "mkCoin r n y p ch ''price_change_percentage_1h_in_currency'' = ch"
  "mkCoin r n y p ch ''price_change_percentage_24h_in_currency'' = JNum (Fin (- 1))"
  "mkCoin r n y p ch ''price_change_percentage_7d_in_currency'' = JNum (Fin 0)"
  "mkCoin r n y p ch ''total_volume'' = JNum (Fin 1234)"
  "mkCoin r n y p ch ''market_cap'' = JNum (Fin 1000000)"
  by (simp_all add: mkCoin_def)

lemma sample_prices:
  "bitcoin ''current_price'' = JNum (Fin 50000)"
  "ethereum ''current_price'' = JNum (Fin 3000)"
  "dogecoin ''current_price'' = JNum (Fin (5764607523034235 / 72057594037927936))"
  by (simp_all add: bitcoin_def ethereum_def dogecoin_def mkCoin_fields num_eval)

lemma sample_names:
  "bitcoin ''name'' = JStr ''Bitcoin''" "bitcoin ''symbol'' = JStr ''btc''"
  "ethereum ''name'' = JStr ''Ethereum''" "ethereum ''symbol'' = JStr ''eth''"
  "dogecoin ''name'' = JStr ''Dogecoin''" "dogecoin ''symbol'' = JStr ''doge''"
  by (simp_all add: bitcoin_def ethereum_def dogecoin_def mkCoin_fields)

lemma sample_isDouble:
  "isDouble 50000" "isDouble 3000" "isDouble (5764607523034235 / 72057594037927936)"
  by (simp_all add: isDouble_def num_eval)

lemma sample_numeric: "numericField ''current_price'' sampleData"
  by (simp add: numericField_def sampleData_def sample_prices sample_isDouble)

lemma sample_named: "list_all wellNamed sampleData"
  by (simp add: sampleData_def wellNamed_def sample_names)

lemma sample_asc:
  "js_sort (sortByColumn sampleHost ''current_price'' ''asc'') sampleData
     = Inr [dogecoin, ethereum, bitcoin]"
  by (simp add: js_sort_def sampleData_def sortByColumn_def sample_prices num_eval)

lemma sample_desc:
  "js_sort (sortByColumn sampleHost ''current_price'' ''desc'') sampleData
     = Inr [bitcoin, ethereum, dogecoin]"
  by (simp add: js_sort_def sampleData_def sortByColumn_def sample_prices num_eval)

lemma sample_noTies: "noTies (sortByColumn sampleHost ''current_price'' ''asc'') sampleData"
  by (simp add: sampleData_def tie_def comesAfter_def sortByColumn_def sample_prices num_eval)

theorem sort_directions_reverse_witness:
  "numericField ''current_price'' sampleData
   \<and> noTies (sortByColumn sampleHost ''current_price'' ''asc'') sampleData
   \<and> computeDerived sampleHost sampleData ''current_price'' ''asc'' []
       = Inr [dogecoin, ethereum, bitcoin]
   \<and> computeDerived sampleHost sampleData ''current_price'' ''desc'' []
       = Inr [bitcoin, ethereum, dogecoin]"
proof -
  have names: "list_all (\<lambda>c. isString (c ''name'')) sampleData"
    by (simp add: sampleData_def sample_names)
  from sort_directions_reverse [OF disjI1 [OF sample_numeric] sample_noTies names]
  obtain ys where asc: "computeDerived sampleHost sampleData ''current_price'' ''asc'' [] = Inr ys"
    and desc: "computeDerived sampleHost sampleData ''current_price'' ''desc'' [] = Inr (rev ys)"
    by blast
  have "computeDerived sampleHost sampleData ''current_price'' ''asc'' []
      = Inr [dogecoin, ethereum, bitcoin]"
    by (simp add: computeDerived_def sample_asc filterBySearch_def sample_names
        toLowerCase_def)
  with asc have "ys = [dogecoin, ethereum, bitcoin]" by simp
  with asc desc sample_numeric sample_noTies show ?thesis by simp
qed

lemma sameLetter_codes:
  "sameLetter a b \<longleftrightarrow>
     a = b \<or> (capitalCode (of_char a) \<and> (of_char b :: nat) = of_char a + 32)
           \<or> (capitalCode (of_char b) \<and> (of_char a :: nat) = of_char b + 32)"
  by (simp add: sameLetter_def letterPairs_iff)

lemmas search_eval = matchesSearch_def sample_names sameLetter_codes capitalCode_def

lemma sample_matches:
  "matchesSearch ''DO'' dogecoin" "\<not> matchesSearch ''DO'' bitcoin"
  "\<not> matchesSearch ''DO'' ethereum"
  "matchesSearch ''bIT'' bitcoin" "\<not> matchesSearch ''bIT'' ethereum"
  "\<not> matchesSearch ''bIT'' dogecoin"
  by (simp_all add: search_eval)

theorem computeDerived_sort_then_filter_witness:
  "neverThrows (sortByColumn sampleHost ''current_price'' ''desc'') (set sampleData)
   \<and> list_all wellNamed sampleData
   \<and> js_sort (sortByColumn sampleHost ''current_price'' ''desc'') sampleData
       = Inr [bitcoin, ethereum, dogecoin]
   \<and> computeDerived sampleHost sampleData ''current_price'' ''desc'' ''DO'' = Inr [dogecoin]
   \<and> computeDerived sampleHost sampleData ''current_price'' ''desc'' ''bIT'' = Inr [bitcoin]
   \<and> computeDerived sampleHost sampleData ''current_price'' ''desc'' []
       = Inr [bitcoin, ethereum, dogecoin]
   \<and> fst (renderTable sampleHost 0 (searchedPage ''DO'')) = Normal
   \<and> map nameText (tbody (snd (renderTable sampleHost 0 (searchedPage ''DO''))))
       = [''Dogecoin'']"
proof -
  let ?cmp = "sortByColumn sampleHost ''current_price'' ''desc''"
  let ?p = "searchedPage ''DO''"
  have nt: "neverThrows ?cmp (set sampleData)"
    by (rule neverThrows_typed [OF disjI1 [OF sample_numeric]])
  have pg: "arrays ?p 0 = sampleData \<and> dataSortBy ?p = ''current_price''
      \<and> dataSort ?p = ''desc'' \<and> dataSearch ?p = ''DO''"
    by (simp add: searchedPage_def)
  from conjunct1 [OF computeDerived_sort_then_filter [OF nt sample_named, of "''DO''"]]
  obtain S where S: "js_sort ?cmp sampleData = Inr S"
    and d: "computeDerived sampleHost sampleData ''current_price'' ''desc'' ''DO''
              = Inr (filter (matchesSearch ''DO'') S)"
    and r: "\<forall>a s. arrays s a = sampleData \<and> dataSortBy s = ''current_price''
              \<and> dataSort s = ''desc'' \<and> dataSearch s = ''DO'' \<longrightarrow>
            renderTable sampleHost a s =
              (case renderRows sampleHost (filter (matchesSearch ''DO'') S)
                      (clearRows (s\<lparr>arrays := (arrays s)(a := S)\<rparr>)) of
                 (Throw e, s') \<Rightarrow> (Throw e, s')
               | (Normal, s') \<Rightarrow> (Normal, updateHeader s'))
            \<and> (fst (renderTable sampleHost a s) = Normal \<longrightarrow>
                 list_all2 (\<lambda>c r. renderRow sampleHost (dataCurrency s) c = Inr r)
                   (filter (matchesSearch ''DO'') S)
                   (tbody (snd (renderTable sampleHost a s))))"
    by (elim exE conjE) (rule that; assumption)
  from conjunct1 [OF computeDerived_sort_then_filter [OF nt sample_named, of "''bIT''"]]
  obtain S1 where S1: "js_sort ?cmp sampleData = Inr S1"
    and d1: "computeDerived sampleHost sampleData ''current_price'' ''desc'' ''bIT''
              = Inr (filter (matchesSearch ''bIT'') S1)"
    by (elim exE conjE) (rule that; assumption)
  from conjunct1 [OF computeDerived_sort_then_filter [OF nt sample_named, of "[]"]]
  obtain S2 where S2: "js_sort ?cmp sampleData = Inr S2"
    and e: "[] = ([] :: string) \<longrightarrow>
      computeDerived sampleHost sampleData ''current_price'' ''desc'' [] = Inr S2"
    by (elim exE conjE) (rule that; assumption)
  from S sample_desc have eqS: "S = [bitcoin, ethereum, dogecoin]" by simp
  from S1 sample_desc have eqS1: "S1 = [bitcoin, ethereum, dogecoin]" by simp
  from S2 sample_desc have eqS2: "S2 = [bitcoin, ethereum, dogecoin]" by simp
  have kept: "filter (matchesSearch ''DO'') S = [dogecoin]"
    unfolding eqS by (simp add: sample_matches)
  have kept1: "filter (matchesSearch ''bIT'') S1 = [bitcoin]"
    unfolding eqS1 by (simp add: sample_matches)
  note d' = d [unfolded kept]
  note d1' = d1 [unfolded kept1]
  note e' = e [rule_format, OF refl, unfolded eqS2]
  let ?s = "clearRows (?p\<lparr>arrays := (arrays ?p)(0 := S)\<rparr>)"
  have cur: "wellFormedCurrency (dataCurrency ?s)"
    by (simp add: clearRows_def searchedPage_def samplePage_def char_eval)
  have "hasAmounts dogecoin"
    by (simp add: hasAmounts_def dogecoin_def mkCoin_fields)
  from renderRow_succeeds [OF cur this, of sampleHost]
  obtain r1 where "renderRow sampleHost (dataCurrency ?s) dogecoin = Inr r1"
    by (elim exE conjE)
  then have "list_all (\<lambda>c. \<exists>r. renderRow sampleHost (dataCurrency ?s) c = Inr r \<and> True) [dogecoin]"
    by simp
  from renderRows_all [OF this] obtain rows
    where rows: "renderRows sampleHost [dogecoin] ?s = (Normal, ?s\<lparr>tbody := tbody ?s @ rows\<rparr>)"
    by (elim exE conjE)
  note rp = r [rule_format, OF pg, unfolded kept]
  note eq = conjunct1 [OF rp]
  have normal: "fst (renderTable sampleHost 0 ?p) = Normal"
    by (simp only: eq rows prod.case completion.case fst_conv)
  from conjunct2 [OF rp, rule_format, OF normal] obtain r0
    where body: "tbody (snd (renderTable sampleHost 0 ?p)) = [r0]"
      and r0: "renderRow sampleHost (dataCurrency ?p) dogecoin = Inr r0"
    by (auto simp only: list_all2_Cons1 list_all2_Nil)
  from renderRow_texts [OF r0] have "nameText r0 = ''Dogecoin''"
    by (simp add: sample_names)
  then have names: "map nameText (tbody (snd (renderTable sampleHost 0 ?p))) = [''Dogecoin'']"
    unfolding body by simp
  show ?thesis
    by (intro conjI nt sample_named sample_desc d' d1' e' normal names)
qed

section \<open>Rendering writes the sorted order back\<close>

lemma sortedInPlace_Inl: "js_sort cmp xs = Inl e \<Longrightarrow> sortedInPlace cmp xs = xs"
  and sortedInPlace_Inr: "js_sort cmp xs = Inr ys \<Longrightarrow> sortedInPlace cmp xs = ys"
  by (simp_all add: sortedInPlace_def)

lemma renderTable_arrays:
  "arrays (snd (renderTable h a s))
     = (arrays s)(a := sortedInPlace (sortByColumn h (dataSortBy s) (dataSort s)) (arrays s a))"
proof (cases "js_sort (sortByColumn h (dataSortBy s) (dataSort s)) (arrays s a)")
  case (Inl e)
  then show ?thesis by (simp add: renderTable_def sortedInPlace_Inl)
next
  case sorted: (Inr sortedData)
  show ?thesis
  proof (cases "js_filter (filterBySearch (dataSearch s)) sortedData")
    case (Inl e)
    with sorted show ?thesis by (simp add: renderTable_def sortedInPlace_Inr)
  next
    case filtered: (Inr filteredData)
    obtain c1 s1 where rr: "renderRows h filteredData
        (clearRows (s\<lparr>arrays := (arrays s)(a := sortedData)\<rparr>)) = (c1, s1)"
      by (cases "renderRows h filteredData (clearRows (s\<lparr>arrays := (arrays s)(a := sortedData)\<rparr>))")
    from renderRows_frame [OF rr] have "arrays s1 = (arrays s)(a := sortedData)"
      by (simp add: clearRows_def)
    with sorted filtered rr show ?thesis
      by (cases c1) (simp_all add: renderTable_def sortedInPlace_Inr updateHeader_def)
  qed
qed

lemma sample_ranks:
  "bitcoin ''market_cap_rank'' = JNum (Fin 1)"
  "ethereum ''market_cap_rank'' = JNum (Fin 2)"
  "dogecoin ''market_cap_rank'' = JNum (Fin 3)"
  by (simp_all add: bitcoin_def ethereum_def dogecoin_def mkCoin_fields)

lemma sample_rank_order:
  "sortByColumn sampleHost ''market_cap_rank'' ''asc'' ethereum dogecoin = Inr (Fin (- 1))"
  "sortByColumn sampleHost ''market_cap_rank'' ''asc'' ethereum bitcoin = Inr (Fin 1)"
  by (simp_all add: sortByColumn_def sample_ranks num_eval)

lemma sample_by_rank:
  "js_sort (sortByColumn sampleHost ''market_cap_rank'' ''asc'') sampleData
     = Inr [bitcoin, ethereum, dogecoin]"
  by (simp add: js_sort_def sampleData_def sample_rank_order)

lemma sample_reordered: "[bitcoin, ethereum, dogecoin] \<noteq> sampleData"
proof
  assume "[bitcoin, ethereum, dogecoin] = sampleData"
  then have "hd [bitcoin, ethereum, dogecoin] ''name'' = hd sampleData ''name''"
    by (rule arg_cong)
  then have "bitcoin ''name'' = ethereum ''name''"
    by (simp only: sampleData_def list.sel)
  then have "JStr ''Bitcoin'' = JStr ''Ethereum''"
    by (simp only: sample_names)
  then show False by simp
qed

text \<open>
  C9.  \<open>renderTable\<close> sorts the array it is given, not a copy: after a render the array
  holds its records in the order of the current comparator.  Every render is given the
  array \<open>lastFetchedData\<close> refers to, so that after a search, a sort or a fetch
  \<open>lastFetchedData\<close> is in comparator order, and the order in which the API returned the
  records is gone, as on the sample, fetched as Ethereum, Dogecoin, Bitcoin and held by
  rank afterwards.
\<close>

theorem renderTable_sorts_in_place:
  "arrays (snd (renderTable h a s)) a
     = sortedInPlace (sortByColumn h (dataSortBy s) (dataSort s)) (arrays s a)
   \<and> lastFetchedData (snd (updateSearch h v s)) = lastFetchedData s
   \<and> arrays (snd (updateSearch h v s)) (lastFetchedData s)
     = sortedInPlace (sortByColumn h (dataSortBy s) (dataSort s)) (arrays s (lastFetchedData s))
   \<and> lastFetchedData (snd (updateSort h newSortBy defaultSort s)) = lastFetchedData s
   \<and> arrays (snd (updateSort h newSortBy defaultSort s)) (lastFetchedData s)
     = sortedInPlace
         (sortByColumn h newSortBy (dataSort (snd (updateSort h newSortBy defaultSort s))))
         (arrays s (lastFetchedData s))
   \<and> arrays (snd (fetchAndRenderTable h (Inr data) s))
        (lastFetchedData (snd (fetchAndRenderTable h (Inr data) s)))
     = sortedInPlace (sortByColumn h (dataSortBy s) (dataSort s)) data
   \<and> arrays (snd (fetchAndRenderTable sampleHost (Inr sampleData) samplePage))
        (lastFetchedData (snd (fetchAndRenderTable sampleHost (Inr sampleData) samplePage)))
     = [bitcoin, ethereum, dogecoin]
   \<and> [bitcoin, ethereum, dogecoin] \<noteq> sampleData"
proof (intro conjI)
  show "arrays (snd (renderTable h a s)) a
     = sortedInPlace (sortByColumn h (dataSortBy s) (dataSort s)) (arrays s a)"
    by (simp add: renderTable_arrays)
  show "lastFetchedData (snd (updateSearch h v s)) = lastFetchedData s"
    by (simp add: updateSearch_def renderTable_frame_snd)
  show "arrays (snd (updateSearch h v s)) (lastFetchedData s)
     = sortedInPlace (sortByColumn h (dataSortBy s) (dataSort s)) (arrays s (lastFetchedData s))"
    by (simp add: updateSearch_def renderTable_arrays)
  show "lastFetchedData (snd (updateSort h newSortBy defaultSort s)) = lastFetchedData s"
    by (simp add: updateSort_def renderTable_frame_snd)
  show "arrays (snd (updateSort h newSortBy defaultSort s)) (lastFetchedData s)
     = sortedInPlace
         (sortByColumn h newSortBy (dataSort (snd (updateSort h newSortBy defaultSort s))))
         (arrays s (lastFetchedData s))"
    by (simp add: updateSort_def renderTable_arrays renderTable_frame_snd)
  show fetch: "arrays (snd (fetchAndRenderTable h (Inr data) s))
        (lastFetchedData (snd (fetchAndRenderTable h (Inr data) s)))
     = sortedInPlace (sortByColumn h (dataSortBy s) (dataSort s)) data" for h data s
    by (simp add: fetchAndRenderTable_def fetchResume_def fetchStart_def renderTable_arrays
        renderTable_frame_snd)
  show "arrays (snd (fetchAndRenderTable sampleHost (Inr sampleData) samplePage))
        (lastFetchedData (snd (fetchAndRenderTable sampleHost (Inr sampleData) samplePage)))
     = [bitcoin, ethereum, dogecoin]"
    by (simp add: fetch) (simp add: samplePage_def sortedInPlace_Inr [OF sample_by_rank])
  show "[bitcoin, ethereum, dogecoin] \<noteq> sampleData" by (rule sample_reordered)
qed

section \<open>Rows with a missing percentage\<close>

lemma getColorClass_missing: "missing v \<Longrightarrow> getColorClass h v = []"
  by (auto simp: missing_def getColorClass_def)

text \<open>
  C8.  A percentage that is \<open>null\<close> or missing gets the neutral (empty) class, and
  formatting it does not throw: with the amounts of every record there and a well-formed
  currency code, every record of the dataset gets its row, the rows of records with a
  missing percentage carrying the empty class in that cell.
\<close>

theorem missing_percentage_neutral:
  assumes "wellFormedCurrency (dataCurrency s)" and "list_all hasAmounts data"
  shows "getColorClass h JNull = [] \<and> getColorClass h JUndefined = []
    \<and> (\<exists>rows. renderRows h data s = (Normal, s\<lparr>tbody := tbody s @ rows\<rparr>)
         \<and> list_all2 (\<lambda>c r. renderRow h (dataCurrency s) c = Inr r
              \<and> (missing (c ''price_change_percentage_1h_in_currency'') \<longrightarrow> fst (change1h r) = [])
              \<and> (missing (c ''price_change_percentage_24h_in_currency'') \<longrightarrow> fst (change24h r) = [])
              \<and> (missing (c ''price_change_percentage_7d_in_currency'') \<longrightarrow> fst (change7d r) = []))
            data rows)"
proof (intro conjI)
  show "getColorClass h JNull = []" and "getColorClass h JUndefined = []"
    by (simp_all add: getColorClass_missing missing_def)
  have "\<exists>r. renderRow h (dataCurrency s) c = Inr r
      \<and> (missing (c ''price_change_percentage_1h_in_currency'') \<longrightarrow> fst (change1h r) = [])
      \<and> (missing (c ''price_change_percentage_24h_in_currency'') \<longrightarrow> fst (change24h r) = [])
      \<and> (missing (c ''price_change_percentage_7d_in_currency'') \<longrightarrow> fst (change7d r) = [])"
    if "hasAmounts c" for c
    using renderRow_succeeds [OF assms(1) that, of h]
    by (auto simp: percentCell_def getColorClass_missing)
  with assms(2) have "list_all (\<lambda>c. \<exists>r. renderRow h (dataCurrency s) c = Inr r
      \<and> (missing (c ''price_change_percentage_1h_in_currency'') \<longrightarrow> fst (change1h r) = [])
      \<and> (missing (c ''price_change_percentage_24h_in_currency'') \<longrightarrow> fst (change24h r) = [])
      \<and> (missing (c ''price_change_percentage_7d_in_currency'') \<longrightarrow> fst (change7d r) = [])) data"
    by (simp add: list_all_iff)
  then show "\<exists>rows. renderRows h data s = (Normal, s\<lparr>tbody := tbody s @ rows\<rparr>)
         \<and> list_all2 (\<lambda>c r. renderRow h (dataCurrency s) c = Inr r
              \<and> (missing (c ''price_change_percentage_1h_in_currency'') \<longrightarrow> fst (change1h r) = [])
              \<and> (missing (c ''price_change_percentage_24h_in_currency'') \<longrightarrow> fst (change24h r) = [])
              \<and> (missing (c ''price_change_percentage_7d_in_currency'') \<longrightarrow> fst (change7d r) = []))
            data rows"
    by (rule renderRows_all)
qed

lemma sample_amounts: "list_all hasAmounts sampleData"
  by (simp add: sampleData_def hasAmounts_def bitcoin_def ethereum_def dogecoin_def
      mkCoin_fields)

lemma sample_currency: "wellFormedCurrency (dataCurrency samplePage)"
  by (simp add: samplePage_def char_eval)

lemma ethereum_row:
  "renderRow sampleHost ''usd'' ethereum =
     Inr \<lparr> rankCell = ''2'', imageSrc = ''/eth.png'', nameText = ''Ethereum'',
           symbolText = ''eth'', priceCell = ''$3,000.00'', change1h = ([], ''0%''),
           change24h = (''negative'', ''-1%''), change7d = ([], ''0%''),
           volumeCell = ''$1,234'', marketCapCell = ''$1,000,000'' \<rparr>"
  by (simp add: renderRow_def ethereum_def mkCoin_fields percentCell_def getColorClass_def
      formatPercentage_def currency_eval num_eval)

theorem missing_percentage_neutral_witness:
  "wellFormedCurrency (dataCurrency samplePage)
   \<and> list_all hasAmounts sampleData
   \<and> missing (ethereum ''price_change_percentage_1h_in_currency'')
   \<and> fst (renderRows sampleHost sampleData samplePage) = Normal
   \<and> length (tbody (snd (renderRows sampleHost sampleData samplePage))) = 3
   \<and> change1h (hd (tbody (snd (renderRows sampleHost sampleData samplePage)))) = ([], ''0%'')"
proof -
  have m: "missing (ethereum ''price_change_percentage_1h_in_currency'')"
    by (simp add: missing_def ethereum_def mkCoin_fields)
  from missing_percentage_neutral [OF sample_currency sample_amounts, of sampleHost]
  obtain rows where r: "renderRows sampleHost sampleData samplePage
        = (Normal, samplePage\<lparr>tbody := tbody samplePage @ rows\<rparr>)"
    and all: "list_all2 (\<lambda>c r. renderRow sampleHost (dataCurrency samplePage) c = Inr r
              \<and> (missing (c ''price_change_percentage_1h_in_currency'') \<longrightarrow> fst (change1h r) = [])
              \<and> (missing (c ''price_change_percentage_24h_in_currency'') \<longrightarrow> fst (change24h r) = [])
              \<and> (missing (c ''price_change_percentage_7d_in_currency'') \<longrightarrow> fst (change7d r) = []))
            sampleData rows"
    by blast
  from all have len: "length rows = 3"
    by (simp add: list_all2_lengthD [symmetric] sampleData_def)
  from all obtain r0 rest where rows: "rows = r0 # rest"
    and r0: "renderRow sampleHost (dataCurrency samplePage) ethereum = Inr r0"
    by (auto simp: sampleData_def list_all2_Cons1)
  from r0 have "r0 = \<lparr> rankCell = ''2'', imageSrc = ''/eth.png'', nameText = ''Ethereum'',
           symbolText = ''eth'', priceCell = ''$3,000.00'', change1h = ([], ''0%''),
           change24h = (''negative'', ''-1%''), change7d = ([], ''0%''),
           volumeCell = ''$1,234'', marketCapCell = ''$1,000,000'' \<rparr>"
    by (simp add: samplePage_def ethereum_row)
  then have "change1h r0 = ([], ''0%'')" by simp
  with r rows len m sample_currency sample_amounts show ?thesis
    by (simp add: samplePage_def)
qed

end
